theory Spec2Isabelle
  imports Main "HOL-Library.Word"
begin

unbundle bit_operations_syntax

section \<open>Data model\<close>

text \<open>
  Bytes are \<open>char\<close> (the source's \<open>std::vector<char>\<close> and \<open>std::string\<close>); the three
  \<open>int32_t\<close> fields are 32-bit words, read as two's complement by \<open>sint\<close>.
\<close>

record Packet =
  symbol :: string
  buysell_indicator :: char
  quantity :: "32 word"
  price :: "32 word"
  sequence :: "32 word"

definition PACKET_SIZE :: nat where
  "PACKET_SIZE = 17"

definition RECV_CHUNK :: nat where
  \<comment> \<open>\<open>temp_buffer.size()\<close> of the \<open>std::array<char, 1024>\<close>\<close>
  "RECV_CHUNK = 1024"

text \<open>
  What the C++ leaves undefined, or where a call never returns, is a value of the model:
  a read past the end of the vector, the signed overflow of a loop counter, and a
  \<open>recv\<close> for which nothing is left to happen.
\<close>

datatype fault = Out_of_bounds_read | Signed_overflow | Recv_never_returns

section \<open>Frame decoder: \<open>parse_packet\<close>\<close>

text \<open>
  The expression
  \<open>(static_cast<int32_t>(d0) << 24) | (static_cast<int32_t>(d1) << 16) |
    (static_cast<int32_t>(d2) << 8) | static_cast<int32_t>(d3)\<close>
  on four \<open>unsigned char\<close> values, which the source writes out once per integer field.
  Each byte is widened without sign extension, and a first byte of 128 or more sets the
  sign bit of the 32-bit result.
\<close>

definition shift_combine :: "char \<Rightarrow> char \<Rightarrow> char \<Rightarrow> char \<Rightarrow> 32 word" where
  "shift_combine d0 d1 d2 d3 =
     push_bit 24 (of_char d0) OR push_bit 16 (of_char d1) OR push_bit 8 (of_char d2) OR of_char d3"

definition parse_packet :: "char list \<Rightarrow> nat \<Rightarrow> fault + Packet" where
  "parse_packet raw_data offset =
     (if length raw_data < offset + 17 then Inl Out_of_bounds_read
      else
        let data = drop offset raw_data in
        Inr \<lparr> symbol = take 4 data,
              buysell_indicator = data ! 4,
              quantity = shift_combine (data ! 5) (data ! 6) (data ! 7) (data ! 8),
              price = shift_combine (data ! 9) (data ! 10) (data ! 11) (data ! 12),
              sequence = shift_combine (data ! 13) (data ! 14) (data ! 15) (data ! 16) \<rparr>)"

text \<open>
  The wire format in the specification's words: a big-endian 32-bit signed integer is
  the base-256 number of its four bytes, most significant first, read as two's
  complement.
\<close>

definition be_unsigned :: "char list \<Rightarrow> int" where
  "be_unsigned bs = foldl (\<lambda>acc b. 256 * acc + of_char b) 0 bs"

definition be_int32 :: "char list \<Rightarrow> int" where
  "be_int32 bs = (let u = be_unsigned bs in if u < 2 ^ 31 then u else u - 2 ^ 32)"

section \<open>Record store: \<open>std::map<int32_t, Packet>\<close>\<close>

text \<open>
  The map is its sequence of entries in iteration order, ascending by signed key.
  \<open>map_assign k v m\<close> is \<open>m[k] = v\<close>; \<open>map_find k m\<close> is \<open>m.find(k)\<close>, with \<open>None\<close> for
  \<open>m.end()\<close>.
\<close>

type_synonym store = "(32 word \<times> Packet) list"

fun map_assign :: "32 word \<Rightarrow> Packet \<Rightarrow> store \<Rightarrow> store" where
  "map_assign k v [] = [(k, v)]"
| "map_assign k v ((k', v') # rest) =
     (if k <s k' then (k, v) # (k', v') # rest
      else if k = k' then (k, v) # rest
      else (k', v') # map_assign k v rest)"

definition map_find :: "32 word \<Rightarrow> store \<Rightarrow> Packet option" where
  "map_find k m = map_of m k"

definition ordered :: "store \<Rightarrow> bool" where
  \<comment> \<open>the representation invariant of the map: keys strictly ascending\<close>
  "ordered m = sorted_wrt (\<lambda>a b. fst a <s fst b) m"

section \<open>Sockets\<close>

text \<open>
  A connection is the list of what successive \<open>recv\<close> calls will find: \<open>Data bs\<close>, bytes
  that are available together (\<open>Data []\<close> is the peer's orderly shutdown, on which \<open>recv\<close>
  returns 0), or \<open>Errno e\<close>, a call that returns -1 with that \<open>errno\<close> (the receive
  timeout is \<open>EAGAIN\<close>/\<open>EWOULDBLOCK\<close>). \<open>recv len\<close> returns at most \<open>len\<close> bytes and leaves
  the others for the next call. An exhausted list is a connection on which nothing more
  happens, not even the timeout (the source goes on when \<open>setsockopt\<close> for it fails): the
  call does not return.
\<close>

datatype sock_event = Data "char list" | Errno nat

datatype recv_result = Received "char list" | Failed nat

definition EAGAIN :: nat where
  "EAGAIN = 11"

definition EWOULDBLOCK :: nat where
  "EWOULDBLOCK = 11"

fun recv :: "nat \<Rightarrow> sock_event list \<Rightarrow> (recv_result \<times> sock_event list) option" where
  "recv len [] = None"
| "recv len (Data bs # rest) =
     (if length bs \<le> len then Some (Received bs, rest)
      else Some (Received (take len bs), Data (drop len bs) # rest))"
| "recv len (Errno e # rest) = Some (Failed e, rest)"

fun pending :: "sock_event list \<Rightarrow> nat" where
  "pending [] = 0"
| "pending (Data bs # rest) = Suc (length bs) + pending rest"
| "pending (Errno e # rest) = Suc (pending rest)"

lemma recv_pending:
  "recv len sock = Some (Received bs, sock') \<Longrightarrow> 0 < length bs \<Longrightarrow> pending sock' < pending sock"
  by (cases sock rule: pending.cases) (auto split: if_splits)

section \<open>Stream reassembler: the receive loop of \<open>main\<close>\<close>

text \<open>
  The inner loop \<open>while (receive_buffer.size() >= PACKET_SIZE)\<close>. The third component
  is a history variable, not program state: the packets assigned into the map so far, in
  order.
\<close>

function drain :: "store \<Rightarrow> char list \<Rightarrow> Packet list \<Rightarrow> fault + (store \<times> char list \<times> Packet list)" where
  "drain received_packets receive_buffer decoded =
     (if PACKET_SIZE \<le> length receive_buffer then
        (case parse_packet receive_buffer 0 of
           Inl f \<Rightarrow> Inl f
         | Inr packet \<Rightarrow>
             drain (map_assign (sequence packet) packet received_packets)
                   (drop PACKET_SIZE receive_buffer)
                   (decoded @ [packet]))
      else Inr (received_packets, receive_buffer, decoded))"
  by pat_completeness auto
termination
  by (relation "measure (\<lambda>(m, buf, log). length buf)") (auto simp: PACKET_SIZE_def)

declare drain.simps [simp del]

text \<open>The outer loop \<open>while (true)\<close> around \<open>recv\<close> on the initial socket.\<close>

function recv_loop ::
  "sock_event list \<Rightarrow> store \<Rightarrow> char list \<Rightarrow> Packet list \<Rightarrow> fault + (store \<times> char list \<times> Packet list)" where
  "recv_loop sock received_packets receive_buffer decoded =
     (case recv RECV_CHUNK sock of
        None \<Rightarrow> Inl Recv_never_returns
      | Some (Received bs, sock') \<Rightarrow>
          if 0 < length bs then
            (case drain received_packets (receive_buffer @ bs) decoded of
               Inl f \<Rightarrow> Inl f
             | Inr (received_packets', receive_buffer', decoded') \<Rightarrow>
                 recv_loop sock' received_packets' receive_buffer' decoded')
          else Inr (received_packets, receive_buffer, decoded)
      | Some (Failed e, sock') \<Rightarrow>
          if e = EAGAIN \<or> e = EWOULDBLOCK then Inr (received_packets, receive_buffer, decoded)
          else Inr (received_packets, receive_buffer, decoded))"
  by pat_completeness auto
termination
  by (relation "measure (\<lambda>(sock, m, buf, log). pending sock)") (auto simp: recv_pending)

declare recv_loop.simps [simp del]

text \<open>
  The reference the stream is compared with, in the specification's words: the
  concatenation of everything received, cut into fixed 17-byte windows, each decoded;
  a trailing fragment shorter than 17 bytes gives no window.
\<close>

definition windows17 :: "char list \<Rightarrow> char list list" where
  "windows17 bytes = map (\<lambda>i. take 17 (drop (17 * i) bytes)) [0..<length bytes div 17]"

definition decode_windows :: "char list \<Rightarrow> Packet list" where
  "decode_windows bytes =
     List.map_filter (\<lambda>w. case parse_packet w 0 of Inr p \<Rightarrow> Some p | Inl f \<Rightarrow> None) (windows17 bytes)"

definition fragment :: "char list \<Rightarrow> char list" where
  "fragment bytes = drop (17 * (length bytes div 17)) bytes"

definition insert_all :: "store \<Rightarrow> Packet list \<Rightarrow> store" where
  "insert_all m ps = foldl (\<lambda>m p. map_assign (sequence p) p m) m ps"

section \<open>Gap analyzer\<close>

definition INT32_MAX :: "32 word" where
  "INT32_MAX = 0x7FFFFFFF"

definition max_sequence_of :: "store \<Rightarrow> 32 word" where
  \<comment> \<open>\<open>received_packets.rbegin()->first\<close>, or the initial 0 when the map is empty\<close>
  "max_sequence_of received_packets =
     (if received_packets \<noteq> [] then fst (last received_packets) else 0)"

lemma sint_succ:
  fixes i :: "32 word"
  assumes "i \<noteq> 0x7FFFFFFF"
  shows "sint (i + 1) = sint i + 1"
proof -
  have "sint i \<noteq> 2 ^ 31 - 1"
  proof
    assume "sint i = 2 ^ 31 - 1"
    then have "word_of_int (sint i) = (word_of_int (2 ^ 31 - 1) :: 32 word)" by simp
    then have "i = 0x7FFFFFFF" by simp
    with assms show False by simp
  qed
  moreover have "sint i < 2 ^ 31" "- (2 ^ 31) \<le> sint i"
    using sint_lt [of i] sint_ge [of i] by simp_all
  ultimately have "sint i + 1 < 2 ^ 31" "- (2 ^ 31) \<le> sint i + 1" by simp_all
  then have "signed_take_bit 31 (sint i + 1) = sint i + 1"
    by (simp add: signed_take_bit_int_eq_self)
  then show ?thesis by (simp add: sint_word_ariths)
qed

text \<open>
  The loop \<open>for (int32_t i = 1; i <= max_sequence; ++i)\<close>. Incrementing \<open>i\<close> at
  \<open>INT32_MAX\<close> overflows a signed integer, which C++ leaves undefined.
\<close>

function scan_missing :: "store \<Rightarrow> 32 word \<Rightarrow> 32 word \<Rightarrow> 32 word list \<Rightarrow> fault + 32 word list" where
  "scan_missing received_packets max_sequence i missing_sequences =
     (if i \<le>s max_sequence then
        (let missing_sequences' =
               (if map_find i received_packets = None then missing_sequences @ [i]
                else missing_sequences)
         in if i = INT32_MAX then Inl Signed_overflow
            else scan_missing received_packets max_sequence (i + 1) missing_sequences')
      else Inr missing_sequences)"
  by pat_completeness auto
termination
proof (relation "measure (\<lambda>(m, mx, i, acc). nat (sint mx - sint i + 1))", goal_cases)
  case 1
  show ?case by simp
next
  case (2 m mx i acc acc')
  then show ?case
    using sint_succ [of i] by (simp add: INT32_MAX_def word_sle_eq)
qed

declare scan_missing.simps [simp del]

definition find_missing :: "store \<Rightarrow> fault + 32 word list" where
  "find_missing received_packets =
     scan_missing received_packets (max_sequence_of received_packets) 1 []"

text \<open>
  The reference in the specification's words: the integers of \<open>[1, max]\<close> that are not
  keys of the store, ascending.
\<close>

definition missing_in_range :: "store \<Rightarrow> 32 word \<Rightarrow> 32 word list" where
  "missing_in_range m mx = filter (\<lambda>j. map_find j m = None) (map word_of_int [1..sint mx])"

section \<open>Recovery session\<close>

text \<open>
  What the network does to one resend connection: whether \<open>socket\<close>, \<open>inet_pton\<close> and
  \<open>connect\<close> succeed, what \<open>send\<close> returns for the two-byte request, and what arrives.
\<close>

record resend_conn =
  rs_socket_ok :: bool
  rs_inet_pton_ok :: bool
  rs_connect_ok :: bool
  rs_bytes_sent :: int
  rs_incoming :: "sock_event list"

definition resend_payload :: "32 word \<Rightarrow> char list" where
  \<comment> \<open>\<open>{2, static_cast<unsigned char>(seq_to_resend)}\<close>\<close>
  "resend_payload seq_to_resend = [char_of (2 :: int), char_of (sint seq_to_resend)]"

text \<open>
  The loop \<open>while (total_bytes_received < PACKET_SIZE)\<close>: each \<open>recv\<close> writes at
  \<open>resent_packet_data.data() + total_bytes_received\<close>. Returns the final
  \<open>total_bytes_received\<close> (reset to 0 on every failure) and the buffer.
\<close>

lemma remaining_shrinks: "xs \<noteq> [] \<Longrightarrow> a < n \<Longrightarrow> n - (a + length xs) < n - a"
  by (cases xs) auto

function recv_packet :: "sock_event list \<Rightarrow> char list \<Rightarrow> nat \<Rightarrow> fault + (nat \<times> char list)" where
  "recv_packet sock resent_packet_data total_bytes_received =
     (if total_bytes_received < PACKET_SIZE then
        (case recv (PACKET_SIZE - total_bytes_received) sock of
           None \<Rightarrow> Inl Recv_never_returns
         | Some (Failed e, sock') \<Rightarrow>
             if e = EAGAIN \<or> e = EWOULDBLOCK then Inr (0, resent_packet_data)
             else Inr (0, resent_packet_data)
         | Some (Received bs, sock') \<Rightarrow>
             if length bs = 0 then Inr (0, resent_packet_data)
             else recv_packet sock'
                    (take total_bytes_received resent_packet_data @ bs
                       @ drop (total_bytes_received + length bs) resent_packet_data)
                    (total_bytes_received + length bs))
      else Inr (total_bytes_received, resent_packet_data))"
  by pat_completeness auto
termination
  by (relation "measure (\<lambda>(sock, buf, total). PACKET_SIZE - total)") (auto simp: remaining_shrinks)

declare recv_packet.simps [simp del]

text \<open>
  One iteration of \<open>for (int32_t seq_to_resend : missing_sequences)\<close>. The result is, as a
  history variable, the payloads handed to \<open>send\<close>, and the map after the iteration.
\<close>

definition resend_session :: "resend_conn \<Rightarrow> 32 word \<Rightarrow> store \<Rightarrow> char list list \<times> (fault + store)" where
  "resend_session conn seq_to_resend received_packets =
     (if \<not> rs_socket_ok conn then ([], Inr received_packets)
      else if \<not> rs_inet_pton_ok conn then ([], Inr received_packets)
      else if \<not> rs_connect_ok conn then ([], Inr received_packets)
      else
        let payload = resend_payload seq_to_resend;
            bytes_sent_resend = rs_bytes_sent conn
        in if bytes_sent_resend = - 1 then ([payload], Inr received_packets)
           else if bytes_sent_resend = 2 then
             (case recv_packet (rs_incoming conn) (replicate PACKET_SIZE (CHR 0x00)) 0 of
                Inl f \<Rightarrow> ([payload], Inl f)
              | Inr (total_bytes_received, resent_packet_data) \<Rightarrow>
                  if total_bytes_received = PACKET_SIZE then
                    (case parse_packet resent_packet_data 0 of
                       Inl f \<Rightarrow> ([payload], Inl f)
                     | Inr resent_packet \<Rightarrow>
                         ([payload],
                          Inr (map_assign (sequence resent_packet) resent_packet received_packets)))
                  else ([payload], Inr received_packets))
           else ([payload], Inr received_packets))"

text \<open>The loop over \<open>missing_sequences\<close>, one fresh connection \<open>net seq_to_resend\<close> each.\<close>

fun recover :: "(32 word \<Rightarrow> resend_conn) \<Rightarrow> 32 word list \<Rightarrow> store \<Rightarrow> char list list \<times> (fault + store)" where
  "recover net [] received_packets = ([], Inr received_packets)"
| "recover net (seq_to_resend # rest) received_packets =
     (case resend_session (net seq_to_resend) seq_to_resend received_packets of
        (payloads, Inl f) \<Rightarrow> (payloads, Inl f)
      | (payloads, Inr received_packets') \<Rightarrow>
          (case recover net rest received_packets' of
             (payloads', result) \<Rightarrow> (payloads @ payloads', result)))"

section \<open>Output formatter\<close>

text \<open>
  \<open>str.find_last_not_of(chars)\<close>, with \<open>None\<close> for \<open>npos\<close>. The source passes the literal
  \<open>" \0"\<close> as a \<open>const char*\<close>, and that overload takes the characters up to the first
  NUL (\<open>traits::length\<close>): \<open>c_str\<close> is this reading of an array of characters.
\<close>

definition find_last_not_of :: "string \<Rightarrow> string \<Rightarrow> nat option" where
  "find_last_not_of str chars =
     (case filter (\<lambda>i. str ! i \<notin> set chars) (rev [0..<length str]) of
        [] \<Rightarrow> None
      | i # _ \<Rightarrow> Some i)"

definition c_str :: "char list \<Rightarrow> string" where
  "c_str array = takeWhile (\<lambda>c. c \<noteq> CHR 0x00) array"

definition trim_symbol :: "string \<Rightarrow> string" where
  "trim_symbol symbol_str =
     (case find_last_not_of symbol_str (c_str [CHR '' '', CHR 0x00, CHR 0x00]) of
        Some last_char_pos \<Rightarrow> take (last_char_pos + 1) symbol_str
      | None \<Rightarrow> [])"

function decimal :: "nat \<Rightarrow> string" where
  "decimal n = (if n < 10 then [''0123456789'' ! n] else decimal (n div 10) @ [''0123456789'' ! (n mod 10)])"
  by pat_completeness auto
termination
  by (relation "measure id") auto

declare decimal.simps [simp del]

definition to_string :: "32 word \<Rightarrow> string" where
  \<comment> \<open>\<open>std::to_string\<close> of an \<open>int32_t\<close>\<close>
  "to_string v = (if sint v < 0 then CHR ''-'' # decimal (nat (- sint v)) else decimal (nat (sint v)))"

definition nl :: string where
  "nl = [CHR 0x0A]"

definition json_object :: "Packet \<Rightarrow> string" where
  \<open>json_object packet =
     ''    {'' @ nl
     @ ''        "symbol": "'' @ trim_symbol (symbol packet) @ ''",'' @ nl
     @ ''        "buysell_indicator": "'' @ [buysell_indicator packet] @ ''",'' @ nl
     @ ''        "quantity": '' @ to_string (quantity packet) @ '','' @ nl
     @ ''        "price": '' @ to_string (price packet) @ '','' @ nl
     @ ''        "packetSequence": '' @ to_string (sequence packet) @ nl
     @ ''    }''\<close>

fun json_objects :: "store \<Rightarrow> bool \<Rightarrow> string" where
  "json_objects [] first_packet = []"
| "json_objects ((k, packet) # rest) first_packet =
     (if \<not> first_packet then '','' @ nl else []) @ json_object packet @ json_objects rest False"

definition json_output :: "store \<Rightarrow> string" where
  "json_output received_packets = ''['' @ nl @ json_objects received_packets True @ nl @ '']'' @ nl"

section \<open>The whole run: \<open>main\<close>\<close>

record environment =
  init_socket_ok :: bool
  init_inet_pton_ok :: bool
  init_connect_ok :: bool
  init_bytes_sent :: int
  init_incoming :: "sock_event list"
  resend_conns :: "32 word \<Rightarrow> resend_conn"
  output_file_opens :: bool

text \<open>The result is the exit status and what was written to \<open>output.json\<close>, if anything.\<close>

definition client_main :: "environment \<Rightarrow> fault + (int \<times> string option)" where
  "client_main env =
     (if \<not> init_socket_ok env then Inr (1, None)
      else if \<not> init_inet_pton_ok env then Inr (1, None)
      else if \<not> init_connect_ok env then Inr (1, None)
      else if init_bytes_sent env = - 1 then Inr (1, None)
      else if init_bytes_sent env = 0 then Inr (1, None)
      else if init_bytes_sent env < 1 then Inr (1, None)
      else
        (case recv_loop (init_incoming env) [] [] [] of
           Inl f \<Rightarrow> Inl f
         | Inr (received_packets, receive_buffer, decoded) \<Rightarrow>
             (case find_missing received_packets of
                Inl f \<Rightarrow> Inl f
              | Inr missing_sequences \<Rightarrow>
                  (case snd (recover (resend_conns env) missing_sequences received_packets) of
                     Inl f \<Rightarrow> Inl f
                   | Inr received_packets' \<Rightarrow>
                       if output_file_opens env then Inr (0, Some (json_output received_packets'))
                       else Inr (1, None)))))"

section \<open>Sample inputs\<close>

text \<open>
  Concrete inputs at which the theorems below are instantiated: a 17-byte frame with the
  given symbol and the four bytes of its sequence field, a resend connection that is
  established, and the record such a frame decodes to.
\<close>

definition frame_of :: "string \<Rightarrow> char \<Rightarrow> char \<Rightarrow> char \<Rightarrow> char \<Rightarrow> char list" where
  "frame_of sy s0 s1 s2 s3 =
     sy @ ''B'' @ [CHR 0x00, CHR 0x00, CHR 0x00, CHR 0x32] @ [CHR 0x00, CHR 0x00, CHR 0x01, CHR 0x00]
       @ [s0, s1, s2, s3]"

definition sample_conn :: "int \<Rightarrow> sock_event list \<Rightarrow> resend_conn" where
  "sample_conn n evs = \<lparr> rs_socket_ok = True, rs_inet_pton_ok = True, rs_connect_ok = True, rs_bytes_sent = n, rs_incoming = evs \<rparr>"

definition sample_packet :: "string \<Rightarrow> 32 word \<Rightarrow> Packet" where
  \<comment> \<open>what \<open>frame_of\<close> decodes to, for the sequence number its four bytes spell\<close>
  "sample_packet sy n =
     \<lparr> symbol = sy, buysell_indicator = CHR ''B'', quantity = 50, price = 256, sequence = n \<rparr>"

section \<open>Properties of the record store\<close>

lemma map_find_assign: "map_find j (map_assign k v m) = (if j = k then Some v else map_find j m)"
  by (induction m) (auto simp: map_find_def)

lemma keys_assign: "set (map fst (map_assign k v m)) = insert k (set (map fst m))"
proof (induction m)
  case Nil
  show ?case by simp
next
  case (Cons e m)
  obtain k' v' where e: "e = (k', v')" by (cases e)
  have "set (map fst (map_assign k v (e # m))) =
      (if k <s k' then insert k (insert k' (set (map fst m)))
       else if k = k' then insert k (set (map fst m))
       else insert k' (set (map fst (map_assign k v m))))"
    by (simp add: e)
  also have "\<dots> = insert k (set (map fst (e # m)))"
    by (simp only: Cons.IH) (auto simp: e)
  finally show ?case .
qed

lemma sless_trans: "a <s b \<Longrightarrow> b <s c \<Longrightarrow> a <s (c :: 32 word)"
  by (simp add: word_sless_alt)

lemma sless_cases: "\<not> a <s b \<Longrightarrow> a \<noteq> b \<Longrightarrow> b <s (a :: 32 word)"
proof -
  assume nlt: "\<not> a <s b" and ne: "a \<noteq> b"
  have "sint a \<noteq> sint b"
  proof
    assume "sint a = sint b"
    then have "(word_of_int (sint a) :: 32 word) = word_of_int (sint b)" by simp
    then show False using ne by simp
  qed
  with nlt show ?thesis by (simp add: word_sless_alt)
qed

lemma sless_irrefl: "\<not> a <s (a :: 32 word)"
  by (simp add: word_sless_alt)

lemma ordered_Cons: "ordered (e # m) = ((\<forall>x \<in> set m. fst e <s fst x) \<and> ordered m)"
  by (simp add: ordered_def)

lemma ordered_assign: "ordered m \<Longrightarrow> ordered (map_assign k v m)"
proof (induction m)
  case Nil
  then show ?case by (simp add: ordered_def)
next
  case (Cons e m)
  obtain k' v' where e: "e = (k', v')" by (cases e)
  show ?case
  proof (cases "k <s k'")
    case True
    with Cons.prems e show ?thesis
      by (auto simp: ordered_Cons intro: sless_trans)
  next
    case False
    show ?thesis
    proof (cases "k = k'")
      case True
      with Cons.prems e show ?thesis by (auto simp: ordered_Cons sless_irrefl)
    next
      case ne: False
      from False ne have lt: "k' <s k" by (rule sless_cases)
      from Cons.prems e have above: "\<forall>x \<in> set m. k' <s fst x" and om: "ordered m"
        by (simp_all add: ordered_Cons)
      have "\<forall>x \<in> set (map_assign k v m). k' <s fst x"
      proof
        fix x assume "x \<in> set (map_assign k v m)"
        then have "fst x \<in> set (map fst (map_assign k v m))" by simp
        then have "fst x = k \<or> fst x \<in> set (map fst m)"
          by (simp only: keys_assign insert_iff)
        with lt above show "k' <s fst x" by auto
      qed
      with False ne Cons.IH [OF om] e show ?thesis by (simp add: ordered_Cons)
    qed
  qed
qed

lemma assign_overwrite: "map_assign k v2 (map_assign k v1 m) = map_assign k v2 m"
  by (induction m) (auto simp: sless_irrefl)

lemma no_entry_below: "\<forall>x \<in> set m. k <s fst x \<Longrightarrow> filter (\<lambda>e. fst e = k) m = []"
  by (induction m) (auto simp: sless_irrefl)

lemma assign_entries: "ordered m \<Longrightarrow> filter (\<lambda>e. fst e = k) (map_assign k v m) = [(k, v)]"
proof (induction m)
  case Nil
  then show ?case by simp
next
  case (Cons e m)
  obtain k' v' where e: "e = (k', v')" by (cases e)
  from Cons.prems e have above: "\<forall>x \<in> set m. k' <s fst x" and om: "ordered m"
    by (simp_all add: ordered_Cons)
  show ?case
  proof (cases "k <s k'")
    case True
    then have "\<forall>x \<in> set m. k <s fst x" using above by (auto intro: sless_trans)
    then have "filter (\<lambda>e. fst e = k) m = []" by (rule no_entry_below)
    with True e show ?thesis by (auto simp: sless_irrefl)
  next
    case False
    show ?thesis
    proof (cases "k = k'")
      case True
      with above have "filter (\<lambda>e. fst e = k) m = []" by (simp add: no_entry_below)
      with True e show ?thesis by (simp add: sless_irrefl)
    next
      case ne: False
      with False e Cons.IH [OF om] show ?thesis by auto
    qed
  qed
qed

lemma mem_assign: "(k, v) \<in> set (map_assign k v m)"
  by (induction m) auto

section \<open>Properties of the frame decoder\<close>

lemma of_char_int_range: "0 \<le> (of_char c :: int) \<and> (of_char c :: int) < 256"
proof -
  have "(of_char c :: int) = int (of_char c)"
    by (simp add: of_nat_of_char)
  moreover have "(of_char c :: nat) < 256"
    by (rule nat_of_char_less_256)
  ultimately show ?thesis by simp
qed

lemma take_bit_of_char: "take_bit 8 (of_char c :: int) = of_char c"
  using of_char_int_range [of c] by (simp add: take_bit_eq_mod)

lemma or_bytes_eq_sum:
  "push_bit 24 (of_char a :: int) OR push_bit 16 (of_char b) OR push_bit 8 (of_char c) OR of_char d
   = of_char a * 2 ^ 24 + of_char b * 2 ^ 16 + of_char c * 2 ^ 8 + of_char d"
proof -
  let ?ba = "concat_bit 8 (of_char b :: int) (of_char a)"
  let ?cba = "concat_bit 8 (of_char c :: int) ?ba"
  let ?dcba = "concat_bit 8 (of_char d :: int) ?cba"
  have 1: "?ba = of_char b + of_char a * 2 ^ 8"
    by (simp add: concat_bit_eq take_bit_of_char push_bit_eq_mult)
  have 2: "?cba = of_char c + (of_char b + of_char a * 2 ^ 8) * 2 ^ 8"
    by (simp only: concat_bit_eq [of 8 "of_char c"] take_bit_of_char 1 push_bit_eq_mult)
  have 3: "?dcba = of_char d + (of_char c + (of_char b + of_char a * 2 ^ 8) * 2 ^ 8) * 2 ^ 8"
    by (simp only: concat_bit_eq [of 8 "of_char d"] take_bit_of_char 2 push_bit_eq_mult)
  have 4: "?dcba =
      push_bit 24 (of_char a :: int) OR push_bit 16 (of_char b) OR push_bit 8 (of_char c) OR of_char d"
    by (simp add: concat_bit_def take_bit_of_char ac_simps)
  show ?thesis using 3 4 by simp
qed

lemma shift_combine_eq:
  "shift_combine a b c d =
     word_of_int (of_char a * 2 ^ 24 + of_char b * 2 ^ 16 + of_char c * 2 ^ 8 + of_char d)"
proof -
  have "shift_combine a b c d =
      word_of_int (push_bit 24 (of_char a :: int) OR push_bit 16 (of_char b)
                   OR push_bit 8 (of_char c) OR of_char d)"
    unfolding shift_combine_def
    by (simp add: of_int_or_eq of_int_push_bit of_int_of_char)
  then show ?thesis by (simp only: or_bytes_eq_sum)
qed

lemma be_unsigned_4:
  "be_unsigned [a, b, c, d] = of_char a * 2 ^ 24 + of_char b * 2 ^ 16 + of_char c * 2 ^ 8 + of_char d"
  by (simp add: be_unsigned_def)

lemma be_unsigned_4_range: "0 \<le> be_unsigned [a, b, c, d] \<and> be_unsigned [a, b, c, d] < 2 ^ 32"
  using of_char_int_range [of a] of_char_int_range [of b]
    of_char_int_range [of c] of_char_int_range [of d]
  by (simp add: be_unsigned_4)

lemma sint_word_of_int_32:
  assumes "0 \<le> u" and "u < 2 ^ 32"
  shows "sint (word_of_int u :: 32 word) = (if u < 2 ^ 31 then u else u - 2 ^ 32)"
proof (cases "u < 2 ^ 31")
  case True
  with assms have "(u + 2 ^ 31) mod 2 ^ 32 = u + 2 ^ 31" by simp
  with True show ?thesis by (simp add: int_word_sint)
next
  case False
  with assms have "(u + 2 ^ 31) mod 2 ^ 32 = u + 2 ^ 31 - 2 ^ 32"
    by (simp add: mod_pos_geq)
  with False show ?thesis by (simp add: int_word_sint)
qed

lemma sint_shift_combine: "sint (shift_combine a b c d) = be_int32 [a, b, c, d]"
proof -
  have "sint (shift_combine a b c d) = sint (word_of_int (be_unsigned [a, b, c, d]) :: 32 word)"
    by (simp only: shift_combine_eq be_unsigned_4)
  also have "\<dots> = be_int32 [a, b, c, d]"
    using be_unsigned_4_range [of a b c d]
    by (simp only: sint_word_of_int_32 be_int32_def Let_def)
  finally show ?thesis .
qed

lemma take4_drop: "n + 4 \<le> length w \<Longrightarrow> take 4 (drop n w) = [w ! n, w ! (n + 1), w ! (n + 2), w ! (n + 3)]"
proof -
  assume "n + 4 \<le> length w"
  then have "drop n w = w ! n # w ! (n + 1) # w ! (n + 2) # w ! (n + 3) # drop (n + 4) w"
    by (simp add: Cons_nth_drop_Suc numeral_eq_Suc)
  then show ?thesis by simp
qed

lemma parse_packet_17: "17 \<le> length w \<Longrightarrow> \<exists>p. parse_packet w 0 = Inr p"
  by (simp add: parse_packet_def)

text \<open>
  Claim C3. Every 17-byte window decodes, none is rejected: the record's symbol is the
  first four bytes as they are, its side is byte 4 as it is, and quantity, price and
  sequence are the signed 32-bit big-endian integers at byte offsets 5, 9 and 13. The
  decoder combines the bytes by shifts on their values, so the result does not depend on
  how the platform lays out an integer in memory.
\<close>

theorem parse_packet_layout:
  assumes "length w = 17"
  shows "\<exists>p. parse_packet w 0 = Inr p
           \<and> symbol p = take 4 w
           \<and> buysell_indicator p = w ! 4
           \<and> sint (quantity p) = be_int32 (take 4 (drop 5 w))
           \<and> sint (price p) = be_int32 (take 4 (drop 9 w))
           \<and> sint (sequence p) = be_int32 (take 4 (drop 13 w))"
proof -
  have q: "take 4 (drop 5 w) = [w ! 5, w ! 6, w ! 7, w ! 8]"
    using assms take4_drop [of 5 w] by simp
  have p: "take 4 (drop 9 w) = [w ! 9, w ! 10, w ! 11, w ! 12]"
    using assms take4_drop [of 9 w] by simp
  have s: "take 4 (drop 13 w) = [w ! 13, w ! 14, w ! 15, w ! 16]"
    using assms take4_drop [of 13 w] by simp
  show ?thesis
    using assms by (simp add: parse_packet_def q p s sint_shift_combine)
qed

theorem parse_packet_layout_witness:
  "length (frame_of ''MSFT'' (CHR 0xFF) (CHR 0xFF) (CHR 0xFF) (CHR 0xFE)) = 17
   \<and> (\<exists>p. parse_packet (frame_of ''MSFT'' (CHR 0xFF) (CHR 0xFF) (CHR 0xFF) (CHR 0xFE)) 0 = Inr p
         \<and> symbol p = ''MSFT''
         \<and> buysell_indicator p = CHR ''B''
         \<and> sint (quantity p) = 50
         \<and> sint (price p) = 256
         \<and> sint (sequence p) = - 2)"
  using parse_packet_layout [of "frame_of ''MSFT'' (CHR 0xFF) (CHR 0xFF) (CHR 0xFF) (CHR 0xFE)"]
  by (simp add: frame_of_def be_int32_def be_unsigned_def)

section \<open>Properties of the stream reassembler\<close>

lemma drain_short: "length buf < 17 \<Longrightarrow> drain m buf log = Inr (m, buf, log)"
  by (simp add: drain.simps [of m buf log] PACKET_SIZE_def)

lemma drain_step:
  "17 \<le> length buf \<Longrightarrow> parse_packet buf 0 = Inr p \<Longrightarrow>
   drain m buf log = drain (map_assign (sequence p) p m) (drop 17 buf) (log @ [p])"
  by (simp add: drain.simps [of m buf log] PACKET_SIZE_def)

lemma drain_one:
  "length w = 17 \<Longrightarrow> parse_packet w 0 = Inr p \<Longrightarrow>
   drain m w log = Inr (map_assign (sequence p) p m, [], log @ [p])"
  by (simp add: drain_step drain_short)

lemma windows17_short: "length xs < 17 \<Longrightarrow> windows17 xs = []"
  by (simp add: windows17_def)

lemma windows17_rec:
  assumes "17 \<le> length xs"
  shows "windows17 xs = take 17 xs # windows17 (drop 17 xs)"
proof -
  have d: "length xs div 17 = Suc ((length xs - 17) div 17)"
    using assms by (simp add: le_div_geq)
  have "map (\<lambda>i. take 17 (drop (17 * i) xs)) [0..<Suc ((length xs - 17) div 17)] =
      take 17 xs # map (\<lambda>i. take 17 (drop (17 * i) (drop 17 xs))) [0..<(length xs - 17) div 17]"
    by (simp add: upt_conv_Cons map_Suc_upt [symmetric] add.commute del: upt_Suc)
  with d show ?thesis by (simp add: windows17_def)
qed

lemma parse_packet_take: "17 \<le> length xs \<Longrightarrow> parse_packet (take 17 xs) 0 = parse_packet xs 0"
  by (simp add: parse_packet_def)

lemma parse_packet_prefix: "17 \<le> length xs \<Longrightarrow> parse_packet (xs @ ys) 0 = parse_packet xs 0"
  by (simp add: parse_packet_def nth_append)

lemma decode_windows_short: "length xs < 17 \<Longrightarrow> decode_windows xs = []"
  by (simp add: decode_windows_def windows17_short map_filter_simps)

lemma decode_windows_rec:
  "17 \<le> length xs \<Longrightarrow> parse_packet xs 0 = Inr p \<Longrightarrow>
   decode_windows xs = p # decode_windows (drop 17 xs)"
  by (simp add: decode_windows_def windows17_rec map_filter_simps parse_packet_take)

lemma fragment_short: "length xs < 17 \<Longrightarrow> fragment xs = xs"
  by (simp add: fragment_def)

lemma fragment_rec: "17 \<le> length xs \<Longrightarrow> fragment xs = fragment (drop 17 xs)"
proof -
  assume "17 \<le> length xs"
  then have "length xs div 17 = Suc ((length xs - 17) div 17)" by (simp add: le_div_geq)
  then show ?thesis by (simp add: fragment_def add.commute)
qed

lemma fragment_length: "length (fragment xs) < 17"
proof -
  have "length xs - 17 * (length xs div 17) = length xs mod 17"
    by (simp add: minus_mult_div_eq_mod)
  then show ?thesis by (simp add: fragment_def)
qed

lemma insert_all_Cons: "insert_all m (p # ps) = insert_all (map_assign (sequence p) p m) ps"
  by (simp add: insert_all_def)

lemma insert_all_append: "insert_all m (ps @ qs) = insert_all (insert_all m ps) qs"
  by (simp add: insert_all_def)

lemma ordered_insert_all: "ordered m \<Longrightarrow> ordered (insert_all m ps)"
  by (induction ps arbitrary: m) (simp_all add: insert_all_def ordered_assign)

lemma drain_eq:
  "drain m buf log = Inr (insert_all m (decode_windows buf), fragment buf, log @ decode_windows buf)"
proof (induction m buf log rule: drain.induct)
  case (1 m buf log)
  show ?case
  proof (cases "17 \<le> length buf")
    case True
    then obtain p where p: "parse_packet buf 0 = Inr p"
      using parse_packet_17 by blast
    from True have "PACKET_SIZE \<le> length buf" by (simp add: PACKET_SIZE_def)
    from "1.IH" [OF this p] True p show ?thesis
      by (simp add: drain_step decode_windows_rec fragment_rec insert_all_Cons PACKET_SIZE_def)
  next
    case False
    then show ?thesis
      by (simp add: drain_short decode_windows_short fragment_short insert_all_def)
  qed
qed

lemma decode_windows_append:
  "decode_windows (xs @ ys) = decode_windows xs @ decode_windows (fragment xs @ ys)"
proof (induction "length xs" arbitrary: xs rule: less_induct)
  case less
  show ?case
  proof (cases "17 \<le> length xs")
    case True
    then obtain p where p: "parse_packet xs 0 = Inr p"
      using parse_packet_17 by blast
    have p': "parse_packet (xs @ ys) 0 = Inr p"
      using True p by (simp add: parse_packet_prefix)
    have "decode_windows (xs @ ys) = p # decode_windows (drop 17 xs @ ys)"
      using True p' decode_windows_rec [of "xs @ ys" p] by simp
    also have "decode_windows (drop 17 xs @ ys) =
        decode_windows (drop 17 xs) @ decode_windows (fragment (drop 17 xs) @ ys)"
      using True by (intro less) simp
    finally show ?thesis
      using True p by (simp add: decode_windows_rec fragment_rec)
  next
    case False
    then show ?thesis by (simp add: decode_windows_short fragment_short)
  qed
qed

lemma fragment_append: "fragment (xs @ ys) = fragment (fragment xs @ ys)"
proof (induction "length xs" arbitrary: xs rule: less_induct)
  case less
  show ?case
  proof (cases "17 \<le> length xs")
    case True
    have "fragment (xs @ ys) = fragment (drop 17 xs @ ys)"
      using True fragment_rec [of "xs @ ys"] by simp
    also have "\<dots> = fragment (fragment (drop 17 xs) @ ys)"
      using True by (intro less) simp
    finally show ?thesis using True by (simp add: fragment_rec)
  next
    case False
    then show ?thesis by (simp add: fragment_short)
  qed
qed

lemma recv_loop_stop:
  assumes "t = Data [] \<or> (\<exists>e. t = Errno e)"
  shows "recv_loop (t # rest) m buf log = Inr (m, buf, log)"
  using assms by (auto simp: recv_loop.simps [of "t # rest" m buf log])

lemma recv_loop_eq:
  assumes "[] \<notin> set chunks" and "t = Data [] \<or> (\<exists>e. t = Errno e)" and "length buf < 17"
  shows "recv_loop (map Data chunks @ t # rest) m buf log =
           Inr (insert_all m (decode_windows (buf @ concat chunks)),
                fragment (buf @ concat chunks),
                log @ decode_windows (buf @ concat chunks))"
  using assms(1,3)
proof (induction "length (concat chunks)" arbitrary: chunks m buf log rule: less_induct)
  case less
  show ?case
  proof (cases chunks)
    case Nil
    with less.prems assms(2) show ?thesis
      by (simp add: recv_loop_stop decode_windows_short fragment_short insert_all_def)
  next
    case (Cons c cs)
    with less.prems have c: "c \<noteq> []" and cs: "[] \<notin> set cs" by auto
    show ?thesis
    proof (cases "length c \<le> RECV_CHUNK")
      case True
      let ?m = "insert_all m (decode_windows (buf @ c))"
      let ?b = "fragment (buf @ c)"
      let ?l = "log @ decode_windows (buf @ c)"
      have step: "recv_loop (map Data chunks @ t # rest) m buf log =
          recv_loop (map Data cs @ t # rest) ?m ?b ?l"
        using True c Cons
        by (simp add: recv_loop.simps [of "Data c # map Data cs @ t # rest" m buf log] drain_eq)
      have "recv_loop (map Data cs @ t # rest) ?m ?b ?l =
          Inr (insert_all ?m (decode_windows (?b @ concat cs)),
               fragment (?b @ concat cs),
               ?l @ decode_windows (?b @ concat cs))"
        using c cs Cons by (intro less) (simp_all add: fragment_length)
      with step Cons show ?thesis
        using decode_windows_append [of "buf @ c" "concat cs"] fragment_append [of "buf @ c" "concat cs"]
        by (simp add: insert_all_append)
    next
      case False
      let ?c1 = "take RECV_CHUNK c"
      let ?c2 = "drop RECV_CHUNK c"
      let ?m = "insert_all m (decode_windows (buf @ ?c1))"
      let ?b = "fragment (buf @ ?c1)"
      let ?l = "log @ decode_windows (buf @ ?c1)"
      from False have c2: "?c2 \<noteq> []" and c1: "?c1 \<noteq> []" by (auto simp: RECV_CHUNK_def)
      have step: "recv_loop (map Data chunks @ t # rest) m buf log =
          recv_loop (map Data (?c2 # cs) @ t # rest) ?m ?b ?l"
        using False c1 Cons
        by (simp add: recv_loop.simps [of "Data c # map Data cs @ t # rest" m buf log] drain_eq)
      have "length (concat (?c2 # cs)) < length (concat chunks)"
        using False Cons by (simp add: RECV_CHUNK_def)
      then have "recv_loop (map Data (?c2 # cs) @ t # rest) ?m ?b ?l =
          Inr (insert_all ?m (decode_windows (?b @ concat (?c2 # cs))),
               fragment (?b @ concat (?c2 # cs)),
               ?l @ decode_windows (?b @ concat (?c2 # cs)))"
        using c2 cs by (intro less) (simp_all add: fragment_length)
      moreover have "(buf @ ?c1) @ concat (?c2 # cs) = buf @ concat chunks"
        using Cons by simp
      ultimately show ?thesis
        using step decode_windows_append [of "buf @ ?c1" "concat (?c2 # cs)"]
          fragment_append [of "buf @ ?c1" "concat (?c2 # cs)"]
        by (simp add: insert_all_append)
    qed
  qed
qed

lemma decode_windows_all:
  "map (\<lambda>w. parse_packet w 0) (windows17 bytes) = map Inr (decode_windows bytes)"
proof (induction "length bytes" arbitrary: bytes rule: less_induct)
  case less
  show ?case
  proof (cases "17 \<le> length bytes")
    case True
    then obtain p where p: "parse_packet bytes 0 = Inr p"
      using parse_packet_17 by blast
    have "map (\<lambda>w. parse_packet w 0) (windows17 (drop 17 bytes)) = map Inr (decode_windows (drop 17 bytes))"
      using True by (intro less) simp
    with True p show ?thesis
      by (simp add: windows17_rec decode_windows_rec parse_packet_take)
  next
    case False
    then show ?thesis by (simp add: windows17_short decode_windows_short)
  qed
qed

text \<open>
  Claim C1. Whatever the chunks in which the bytes arrive (chunks that end inside a
  record, single bytes, chunks longer than one \<open>recv\<close> returns), when the stream ends by
  close, timeout or error the receive loop has decoded and assigned into the store
  exactly the records of the fixed 17-byte windows of the concatenation, in that order:
  every window decodes, the trailing fragment shorter than 17 bytes is left in the
  buffer and gives no record, and two ways of splitting the same bytes give the same
  result.
\<close>

theorem stream_reassembly:
  assumes "[] \<notin> set chunks" and "t = Data [] \<or> (\<exists>e. t = Errno e)"
  shows "recv_loop (map Data chunks @ t # rest) m [] [] =
           Inr (insert_all m (decode_windows (concat chunks)),
                fragment (concat chunks),
                decode_windows (concat chunks))
       \<and> map (\<lambda>w. parse_packet w 0) (windows17 (concat chunks)) = map Inr (decode_windows (concat chunks))
       \<and> length (fragment (concat chunks)) < 17
       \<and> (\<forall>chunks'. [] \<notin> set chunks' \<and> concat chunks' = concat chunks \<longrightarrow>
             recv_loop (map Data chunks' @ t # rest) m [] [] =
             recv_loop (map Data chunks @ t # rest) m [] [])"
proof -
  have eq: "recv_loop (map Data cs @ t # rest) m [] [] =
      Inr (insert_all m (decode_windows (concat cs)), fragment (concat cs), decode_windows (concat cs))"
    if "[] \<notin> set cs" for cs
    using recv_loop_eq [OF that assms(2), of "[]" rest m "[]"] by simp
  have 1: "recv_loop (map Data chunks @ t # rest) m [] [] =
      Inr (insert_all m (decode_windows (concat chunks)), fragment (concat chunks),
           decode_windows (concat chunks))"
    using assms(1) by (rule eq)
  have 4: "\<forall>chunks'. [] \<notin> set chunks' \<and> concat chunks' = concat chunks \<longrightarrow>
      recv_loop (map Data chunks' @ t # rest) m [] [] = recv_loop (map Data chunks @ t # rest) m [] []"
    using 1 by (auto simp: eq)
  from 1 4 show ?thesis
    by (simp add: decode_windows_all fragment_length)
qed

theorem stream_reassembly_witness:
  "[] \<notin> set [take 5 (frame_of ''AAPL'' (CHR 0x00) (CHR 0x00) (CHR 0x00) (CHR 0x01)),
               drop 5 (frame_of ''AAPL'' (CHR 0x00) (CHR 0x00) (CHR 0x00) (CHR 0x01))
                 @ take 3 (frame_of ''MSFT'' (CHR 0x00) (CHR 0x00) (CHR 0x00) (CHR 0x02)),
               drop 3 (frame_of ''MSFT'' (CHR 0x00) (CHR 0x00) (CHR 0x00) (CHR 0x02)) @ ''xy'']
   \<and> recv_loop
        (map Data [take 5 (frame_of ''AAPL'' (CHR 0x00) (CHR 0x00) (CHR 0x00) (CHR 0x01)),
                   drop 5 (frame_of ''AAPL'' (CHR 0x00) (CHR 0x00) (CHR 0x00) (CHR 0x01))
                     @ take 3 (frame_of ''MSFT'' (CHR 0x00) (CHR 0x00) (CHR 0x00) (CHR 0x02)),
                   drop 3 (frame_of ''MSFT'' (CHR 0x00) (CHR 0x00) (CHR 0x00) (CHR 0x02)) @ ''xy'']
           @ Errno 11 # [])
        [] [] []
       = Inr ([(1, sample_packet ''AAPL'' 1), (2, sample_packet ''MSFT'' 2)], ''xy'',
              [sample_packet ''AAPL'' 1, sample_packet ''MSFT'' 2])
   \<and> recv_loop
        (map Data (map (\<lambda>b. [b])
            (frame_of ''AAPL'' (CHR 0x00) (CHR 0x00) (CHR 0x00) (CHR 0x01)
               @ frame_of ''MSFT'' (CHR 0x00) (CHR 0x00) (CHR 0x00) (CHR 0x02) @ ''xy''))
           @ Errno 11 # [])
        [] [] []
       = Inr ([(1, sample_packet ''AAPL'' 1), (2, sample_packet ''MSFT'' 2)], ''xy'',
              [sample_packet ''AAPL'' 1, sample_packet ''MSFT'' 2])"
proof -
  let ?a = "frame_of ''AAPL'' (CHR 0x00) (CHR 0x00) (CHR 0x00) (CHR 0x01)"
  let ?b = "frame_of ''MSFT'' (CHR 0x00) (CHR 0x00) (CHR 0x00) (CHR 0x02)"
  let ?chunks = "[take 5 ?a, drop 5 ?a @ take 3 ?b, drop 3 ?b @ ''xy'']"
  let ?bytes = "map (\<lambda>b. [b]) (?a @ ?b @ ''xy'')"
  have c: "concat ?chunks = ?a @ ?b @ ''xy''" by simp
  have c': "concat ?bytes = concat ?chunks" by (simp add: frame_of_def)
  have ne: "[] \<notin> set ?chunks" by (simp add: frame_of_def)
  have ne': "[] \<notin> set ?bytes" by auto
  have pa: "parse_packet (?a @ ?b @ ''xy'') 0 = Inr (sample_packet ''AAPL'' 1)"
    by (simp add: parse_packet_def frame_of_def sample_packet_def shift_combine_def)
  have pb: "parse_packet (?b @ ''xy'') 0 = Inr (sample_packet ''MSFT'' 2)"
    by (simp add: parse_packet_def frame_of_def sample_packet_def shift_combine_def)
  have la: "length ?a = 17" and lb: "length ?b = 17" by (simp_all add: frame_of_def)
  have dw: "decode_windows (?a @ ?b @ ''xy'') = [sample_packet ''AAPL'' 1, sample_packet ''MSFT'' 2]"
    using pa pb la lb
    by (simp add: decode_windows_rec [of "?a @ ?b @ ''xy''"] decode_windows_rec [of "?b @ ''xy''"]
        decode_windows_short)
  have fr: "fragment (?a @ ?b @ ''xy'') = ''xy''"
    using la lb by (simp add: fragment_def)
  have ins: "insert_all [] [sample_packet ''AAPL'' 1, sample_packet ''MSFT'' 2] =
      [(1, sample_packet ''AAPL'' 1), (2, sample_packet ''MSFT'' 2)]"
    by (simp add: insert_all_def sample_packet_def word_sless_alt)
  from stream_reassembly [of ?chunks "Errno 11" "[]" "[]"] ne
  have r: "recv_loop (map Data ?chunks @ Errno 11 # []) [] [] [] =
        Inr ([(1, sample_packet ''AAPL'' 1), (2, sample_packet ''MSFT'' 2)], ''xy'',
             [sample_packet ''AAPL'' 1, sample_packet ''MSFT'' 2])"
    and all: "\<forall>chunks'. [] \<notin> set chunks' \<and> concat chunks' = concat ?chunks \<longrightarrow>
          recv_loop (map Data chunks' @ Errno 11 # []) [] [] [] =
          recv_loop (map Data ?chunks @ Errno 11 # []) [] [] []"
    by (simp_all only: c dw fr ins) auto
  from all ne' c' have "recv_loop (map Data ?bytes @ Errno 11 # []) [] [] [] =
      recv_loop (map Data ?chunks @ Errno 11 # []) [] [] []"
    by blast
  with r ne show ?thesis by simp
qed

section \<open>Properties of the gap analyzer\<close>

text \<open>
  Every store the program builds is ordered (\<open>ordered_assign\<close>, \<open>ordered_insert_all\<close>), so
  the key of its last entry, which \<open>max_sequence_of\<close> reads, is its greatest key.
\<close>

lemma max_sequence_of_greatest:
  assumes "ordered m" and "e \<in> set m"
  shows "fst e \<le>s max_sequence_of m"
proof -
  from assms(2) have "m \<noteq> []" by auto
  then obtain xs x where m: "m = xs @ [x]" by (cases m rule: rev_cases) auto
  with assms(1) have "\<forall>y \<in> set xs. fst y <s fst x"
    by (simp add: ordered_def sorted_wrt_append)
  moreover have "max_sequence_of m = fst x" using m by (simp add: max_sequence_of_def)
  ultimately show ?thesis
    using assms(2) m by (auto simp: word_sless_alt word_sle_eq)
qed

lemma sint_not_max:
  fixes i :: "32 word"
  assumes "i \<noteq> INT32_MAX"
  shows "sint i < 2 ^ 31 - 1"
proof -
  have "sint i \<noteq> 2 ^ 31 - 1"
  proof
    assume "sint i = 2 ^ 31 - 1"
    then have "word_of_int (sint i) = (word_of_int (2 ^ 31 - 1) :: 32 word)" by simp
    then have "i = 0x7FFFFFFF" by simp
    with assms show False by (simp add: INT32_MAX_def)
  qed
  moreover have "sint i < 2 ^ 31" using sint_lt [of i] by simp
  ultimately show ?thesis by simp
qed

lemma scan_missing_overflow:
  "scan_missing m INT32_MAX i acc = Inl Signed_overflow"
proof (induction m "INT32_MAX" i acc rule: scan_missing.induct)
  case (1 m i acc)
  have le: "i \<le>s INT32_MAX"
    using sint_lt [of i] by (simp add: word_sle_eq INT32_MAX_def)
  show ?case
  proof (cases "i = INT32_MAX")
    case True
    with le show ?thesis by (simp add: Let_def scan_missing.simps [of m INT32_MAX INT32_MAX acc])
  next
    case False
    with le "1.hyps" [OF le refl False] show ?thesis
      by (simp add: Let_def scan_missing.simps [of m INT32_MAX i acc])
  qed
qed

lemma scan_missing_eq:
  assumes "mx \<noteq> INT32_MAX"
  shows "scan_missing m mx i acc =
    Inr (acc @ filter (\<lambda>j. map_find j m = None) (map word_of_int [sint i..sint mx]))"
  using assms
proof (induction m mx i acc rule: scan_missing.induct)
  case (1 m mx i acc)
  show ?case
  proof (cases "i \<le>s mx")
    case True
    then have le: "sint i \<le> sint mx" by (simp add: word_sle_eq)
    with sint_not_max [OF "1.prems"] have "sint i < 2 ^ 31 - 1" by simp
    then have ne: "i \<noteq> INT32_MAX" by (auto simp: INT32_MAX_def)
    then have succ: "sint (i + 1) = sint i + 1"
      using sint_succ [of i] by (simp add: INT32_MAX_def)
    have up: "[sint i..sint mx] = sint i # [sint i + 1..sint mx]"
      using le by (simp add: upto_rec1)
    from "1.IH" [OF True refl ne "1.prems"] True ne show ?thesis
      by (simp add: Let_def succ up scan_missing.simps [of m mx i acc])
  next
    case False
    then have "sint mx < sint i" by (simp add: word_sle_eq)
    with False show ?thesis by (simp add: scan_missing.simps [of m mx i acc])
  qed
qed

lemma find_missing_eq:
  "max_sequence_of m \<noteq> INT32_MAX \<Longrightarrow> find_missing m = Inr (missing_in_range m (max_sequence_of m))"
  by (simp add: find_missing_def missing_in_range_def scan_missing_eq)

lemma find_missing_overflow:
  "max_sequence_of m = INT32_MAX \<Longrightarrow> find_missing m = Inl Signed_overflow"
  by (simp add: find_missing_def scan_missing_overflow)

lemma sint_word_of_int_small:
  "- (2 ^ 31) \<le> j \<Longrightarrow> j < 2 ^ 31 \<Longrightarrow> sint (word_of_int j :: 32 word) = j"
  by (simp add: sint_sbintrunc' signed_take_bit_int_eq_self)

lemma missing_in_range_positive:
  assumes "s \<in> set (missing_in_range m mx)"
  shows "0 <s s"
proof -
  from assms obtain j where j: "1 \<le> j" "j \<le> sint mx" and s: "s = word_of_int j"
    by (auto simp: missing_in_range_def)
  have "sint mx < 2 ^ 31" using sint_lt [of mx] by simp
  with j have "sint (word_of_int j :: 32 word) = j"
    by (intro sint_word_of_int_small) simp_all
  with j s show ?thesis by (simp add: word_sless_alt)
qed

lemma find_missing_positive:
  assumes "find_missing m = Inr missing" and "s \<in> set missing"
  shows "0 <s s"
proof (cases "max_sequence_of m = INT32_MAX")
  case True
  with assms show ?thesis by (simp add: find_missing_overflow)
next
  case False
  with assms show ?thesis by (auto simp: find_missing_eq intro: missing_in_range_positive)
qed

lemma find_missing_all_negative:
  assumes "m \<noteq> []" and "\<forall>e \<in> set m. fst e <s 0"
  shows "find_missing m = Inr []"
proof -
  from assms have "last m \<in> set m" by simp
  with assms have "max_sequence_of m <s 0" by (simp add: max_sequence_of_def)
  then have "\<not> 1 \<le>s max_sequence_of m" by (simp add: word_sless_alt word_sle_eq)
  then show ?thesis
    by (simp add: find_missing_def scan_missing.simps [of m "max_sequence_of m" 1 "[]"])
qed

text \<open>
  Claim C2 states that for every store the missing-sequence list is exactly the integers
  of \<open>[1, max]\<close> that are not keys, ascending, and empty when \<open>max = 0\<close>. This holds for every
  store whose greatest key is not \<open>INT32_MAX\<close> (\<open>find_missing_eq\<close>). At a store holding the
  key \<open>INT32_MAX = 2147483647\<close>, which one received frame with sequence bytes
  \<open>7F FF FF FF\<close> produces, the loop condition \<open>i <= max_sequence\<close> never fails and the counter
  is incremented past \<open>INT32_MAX\<close>: no missing list is computed, and the run does not reach
  the recovery phase or the output.
\<close>

theorem find_missing_at_int32_max:
  "recv_loop [Data (frame_of ''MSFT'' (CHR 0x7F) (CHR 0xFF) (CHR 0xFF) (CHR 0xFF)), Data []] [] [] []
     = Inr ([(0x7FFFFFFF, sample_packet ''MSFT'' 0x7FFFFFFF)], [], [sample_packet ''MSFT'' 0x7FFFFFFF])
   \<and> max_sequence_of [(0x7FFFFFFF, sample_packet ''MSFT'' 0x7FFFFFFF)] = 0x7FFFFFFF
   \<and> find_missing [(0x7FFFFFFF, sample_packet ''MSFT'' 0x7FFFFFFF)] = Inl Signed_overflow
   \<and> client_main \<lparr> init_socket_ok = True, init_inet_pton_ok = True, init_connect_ok = True,
                    init_bytes_sent = 1,
                    init_incoming = [Data (frame_of ''MSFT'' (CHR 0x7F) (CHR 0xFF) (CHR 0xFF) (CHR 0xFF)), Data []],
                    resend_conns = (\<lambda>s. sample_conn 2 []),
                    output_file_opens = True \<rparr>
       = Inl Signed_overflow"
proof -
  let ?w = "frame_of ''MSFT'' (CHR 0x7F) (CHR 0xFF) (CHR 0xFF) (CHR 0xFF)"
  let ?p = "sample_packet ''MSFT'' 0x7FFFFFFF"
  have parse: "parse_packet ?w 0 = Inr ?p"
    by (simp add: parse_packet_def frame_of_def sample_packet_def shift_combine_def)
  have len: "length ?w = 17" by (simp add: frame_of_def)
  have "drain [] ?w [] = Inr ([(0x7FFFFFFF, ?p)], [], [?p])"
    using drain_one [OF len parse, of "[]" "[]"] by (simp add: sample_packet_def)
  then have 1: "recv_loop [Data ?w, Data []] [] [] [] = Inr ([(0x7FFFFFFF, ?p)], [], [?p])"
    using len
    by (simp add: recv_loop.simps [of "[Data ?w, Data []]"] recv_loop.simps [of "[Data []]"] RECV_CHUNK_def)
  have 2: "max_sequence_of [(0x7FFFFFFF, ?p)] = 0x7FFFFFFF"
    by (simp add: max_sequence_of_def)
  have 3: "find_missing [(0x7FFFFFFF, ?p)] = Inl Signed_overflow"
    using find_missing_overflow [of "[(0x7FFFFFFF, ?p)]"] 2 by (simp add: INT32_MAX_def)
  from 1 2 3 show ?thesis by (simp add: client_main_def)
qed

section \<open>Properties of the recovery session\<close>

lemma recv_packet_full: "recv_packet sock buf 17 = Inr (17, buf)"
  by (simp add: recv_packet.simps [of sock buf 17] PACKET_SIZE_def)

lemma recv_packet_complete:
  assumes "[] \<notin> set chunks" and "got \<le> 17" and "length buf = 17"
    and "17 - got \<le> length (concat chunks)"
  shows "recv_packet (map Data chunks @ rest) buf got =
           Inr (17, take got buf @ take (17 - got) (concat chunks))"
  using assms
proof (induction chunks arbitrary: buf got)
  case Nil
  then have "got = 17" by simp
  with Nil show ?case by (simp add: recv_packet_full)
next
  case (Cons c cs)
  show ?case
  proof (cases "got = 17")
    case True
    with Cons.prems show ?thesis by (simp add: recv_packet_full)
  next
    case False
    with Cons.prems have lt: "got < 17" by simp
    from Cons.prems have c: "c \<noteq> []" and cs: "[] \<notin> set cs" by auto
    show ?thesis
    proof (cases "length c \<le> 17 - got")
      case True
      let ?buf = "take got buf @ c @ drop (got + length c) buf"
      have step: "recv_packet (map Data (c # cs) @ rest) buf got =
          recv_packet (map Data cs @ rest) ?buf (got + length c)"
        using lt c True
        by (simp add: recv_packet.simps [of "Data c # map Data cs @ rest" buf got] PACKET_SIZE_def)
      have len: "length ?buf = 17" using Cons.prems lt True by simp
      have tk: "take (got + length c) ?buf = take got buf @ c"
        using Cons.prems lt by simp
      have "recv_packet (map Data cs @ rest) ?buf (got + length c) =
          Inr (17, take (got + length c) ?buf @ take (17 - (got + length c)) (concat cs))"
        using Cons.prems lt True by (intro Cons.IH [OF cs _ len]) simp_all
      with step tk True show ?thesis by simp
    next
      case False
      let ?n = "17 - got"
      let ?buf = "take got buf @ take ?n c @ drop (got + length (take ?n c)) buf"
      have step: "recv_packet (map Data (c # cs) @ rest) buf got =
          recv_packet (Data (drop ?n c) # map Data cs @ rest) ?buf (got + length (take ?n c))"
        using lt c False
        by (simp add: recv_packet.simps [of "Data c # map Data cs @ rest" buf got] PACKET_SIZE_def)
      have tot: "got + length (take ?n c) = 17" using lt False by simp
      have "?buf = take got buf @ take ?n c" using Cons.prems lt False by simp
      with step tot False show ?thesis by (simp add: recv_packet_full)
    qed
  qed
qed

lemma recv_packet_abandoned:
  assumes "[] \<notin> set chunks" and "got + length (concat chunks) < 17"
    and "t = Data [] \<or> (\<exists>e. t = Errno e)"
  shows "\<exists>buf'. recv_packet (map Data chunks @ t # rest) buf got = Inr (0, buf')"
  using assms
proof (induction chunks arbitrary: buf got)
  case Nil
  then have "got < 17" by simp
  with Nil.prems(3) show ?case
    by (auto simp: recv_packet.simps [of _ buf got] PACKET_SIZE_def)
next
  case (Cons c cs)
  from Cons.prems have c: "c \<noteq> []" and cs: "[] \<notin> set cs"
    and lt: "got < 17" and fit: "length c \<le> 17 - got" by auto
  let ?buf = "take got buf @ c @ drop (got + length c) buf"
  have step: "recv_packet (map Data (c # cs) @ t # rest) buf got =
      recv_packet (map Data cs @ t # rest) ?buf (got + length c)"
    using lt c fit
    by (simp add: recv_packet.simps [of "Data c # map Data cs @ t # rest" buf got] PACKET_SIZE_def)
  have "\<exists>buf'. recv_packet (map Data cs @ t # rest) ?buf (got + length c) = Inr (0, buf')"
    using Cons.prems by (intro Cons.IH [OF cs]) simp_all
  with step show ?case by simp
qed

lemma resend_session_complete:
  assumes "rs_socket_ok conn" and "rs_inet_pton_ok conn" and "rs_connect_ok conn"
    and "rs_bytes_sent conn = 2"
    and "rs_incoming conn = map Data chunks @ rest" and "[] \<notin> set chunks"
    and "17 \<le> length (concat chunks)"
  shows "\<exists>p. parse_packet (take 17 (concat chunks)) 0 = Inr p
           \<and> resend_session conn s m = ([resend_payload s], Inr (map_assign (sequence p) p m))"
proof -
  have "recv_packet (rs_incoming conn) (replicate PACKET_SIZE (CHR 0x00)) 0 =
      Inr (17, take 17 (concat chunks))"
    using assms recv_packet_complete [of chunks 0 "replicate 17 (CHR 0x00)" rest]
    by (simp add: PACKET_SIZE_def)
  moreover obtain p where "parse_packet (take 17 (concat chunks)) 0 = Inr p"
    using assms(7) parse_packet_17 [of "take 17 (concat chunks)"] by auto
  ultimately show ?thesis
    using assms by (simp add: resend_session_def PACKET_SIZE_def)
qed

lemma resend_session_abandoned:
  assumes "\<not> rs_socket_ok conn \<or> \<not> rs_inet_pton_ok conn \<or> \<not> rs_connect_ok conn
           \<or> rs_bytes_sent conn \<noteq> 2
           \<or> (rs_incoming conn = map Data chunks @ t # rest \<and> [] \<notin> set chunks
               \<and> length (concat chunks) < 17 \<and> (t = Data [] \<or> (\<exists>e. t = Errno e)))"
  shows "snd (resend_session conn s m) = Inr m"
proof (cases "rs_socket_ok conn \<and> rs_inet_pton_ok conn \<and> rs_connect_ok conn \<and> rs_bytes_sent conn = 2")
  case False
  then show ?thesis by (auto simp: resend_session_def Let_def)
next
  case True
  with assms have inc: "rs_incoming conn = map Data chunks @ t # rest" and ne: "[] \<notin> set chunks"
    and short: "length (concat chunks) < 17" and t: "t = Data [] \<or> (\<exists>e. t = Errno e)"
    by auto
  obtain buf' where "recv_packet (rs_incoming conn) (replicate PACKET_SIZE (CHR 0x00)) 0 = Inr (0, buf')"
    using recv_packet_abandoned [OF ne _ t, of 0 rest "replicate PACKET_SIZE (CHR 0x00)"] short inc
    by auto
  with True show ?thesis by (simp add: resend_session_def PACKET_SIZE_def)
qed

text \<open>
  Claim C5. For every sequence number \<open>s\<close>, inside \<open>[0, 255]\<close> or not, the request is the two
  bytes \<open>0x02\<close> and \<open>s mod 256\<close>; a session whose connection is established hands exactly
  this payload to \<open>send\<close>, whatever \<open>s\<close> is.
\<close>

theorem resend_request_bytes:
  "map of_char (resend_payload s) = [2, sint s mod 256 :: int]
   \<and> (rs_socket_ok conn \<and> rs_inet_pton_ok conn \<and> rs_connect_ok conn
        \<longrightarrow> fst (resend_session conn s m) = [resend_payload s])
   \<and> snd (resend_session conn s m) = snd (resend_session conn s' m)"
  by (simp add: resend_payload_def of_char_of resend_session_def Let_def split: sum.splits prod.splits)

theorem resend_request_bytes_witness:
  "map of_char (resend_payload 300) = [2, 44 :: int]
   \<and> rs_socket_ok (sample_conn 2 []) \<and> rs_inet_pton_ok (sample_conn 2 []) \<and> rs_connect_ok (sample_conn 2 [])
   \<and> map (map of_char) (fst (resend_session (sample_conn 2 []) 300 [])) = [[2, 44 :: int]]"
  using resend_request_bytes [of 300 "sample_conn 2 []" "[]"]
  by (simp add: sample_conn_def)

text \<open>
  Claim C6. A session that is connected, whose request is sent whole, and to which at
  least 17 bytes arrive before anything else (in chunks of any sizes) decodes the first
  17 bytes and stores the record under the sequence it decodes to. The requested
  sequence \<open>s\<close> plays no part: when the decoded sequence differs from it, the entry for
  \<open>s\<close> is what it was before the session.
\<close>

theorem complete_session_files_under_decoded_sequence:
  assumes "rs_socket_ok conn" and "rs_inet_pton_ok conn" and "rs_connect_ok conn"
    and "rs_bytes_sent conn = 2"
    and "rs_incoming conn = map Data chunks @ rest" and "[] \<notin> set chunks"
    and "17 \<le> length (concat chunks)"
  shows "\<exists>p. parse_packet (take 17 (concat chunks)) 0 = Inr p
           \<and> snd (resend_session conn s m) = Inr (map_assign (sequence p) p m)
           \<and> map_find (sequence p) (map_assign (sequence p) p m) = Some p
           \<and> (sequence p \<noteq> s \<longrightarrow> map_find s (map_assign (sequence p) p m) = map_find s m)"
proof -
  obtain p where "parse_packet (take 17 (concat chunks)) 0 = Inr p"
    and "resend_session conn s m = ([resend_payload s], Inr (map_assign (sequence p) p m))"
    using resend_session_complete [OF assms, of s m] by auto
  then show ?thesis by (auto simp: map_find_assign)
qed

theorem complete_session_files_under_decoded_sequence_witness:
  "rs_socket_ok (sample_conn 2 [Data ''AAP'', Data (drop 3 (frame_of ''AAPL'' (CHR 0x00) (CHR 0x00) (CHR 0x00) (CHR 0x05)) @ ''xyz'')])
   \<and> rs_bytes_sent (sample_conn 2 [Data ''AAP'', Data (drop 3 (frame_of ''AAPL'' (CHR 0x00) (CHR 0x00) (CHR 0x00) (CHR 0x05)) @ ''xyz'')]) = 2
   \<and> 17 \<le> length (concat [''AAP'', drop 3 (frame_of ''AAPL'' (CHR 0x00) (CHR 0x00) (CHR 0x00) (CHR 0x05)) @ ''xyz''])
   \<and> snd (resend_session
            (sample_conn 2 [Data ''AAP'', Data (drop 3 (frame_of ''AAPL'' (CHR 0x00) (CHR 0x00) (CHR 0x00) (CHR 0x05)) @ ''xyz'')])
            3 [(1, sample_packet ''META'' 1)])
       = Inr [(1, sample_packet ''META'' 1), (5, sample_packet ''AAPL'' 5)]
   \<and> map_find 5 [(1, sample_packet ''META'' 1), (5, sample_packet ''AAPL'' 5)] = Some (sample_packet ''AAPL'' 5)
   \<and> map_find 3 [(1, sample_packet ''META'' 1), (5, sample_packet ''AAPL'' 5)] = None"
  using complete_session_files_under_decoded_sequence
    [of "sample_conn 2 [Data ''AAP'', Data (drop 3 (frame_of ''AAPL'' (CHR 0x00) (CHR 0x00) (CHR 0x00) (CHR 0x05)) @ ''xyz'')]"
        "[''AAP'', drop 3 (frame_of ''AAPL'' (CHR 0x00) (CHR 0x00) (CHR 0x00) (CHR 0x05)) @ ''xyz'']" "[]" 3
        "[(1, sample_packet ''META'' 1)]"]
  by (simp add: sample_conn_def frame_of_def sample_packet_def parse_packet_def shift_combine_def
      map_find_def word_sless_alt)

text \<open>
  Claim C7. An abandoned session returns the store as it was: when \<open>socket\<close>, \<open>inet_pton\<close>
  or \<open>connect\<close> fails, when \<open>send\<close> does not return 2, or when fewer than 17 bytes arrive
  before the peer closes or \<open>recv\<close> fails (the timeout included). The bytes received so
  far are in a buffer local to the session. The loop over the missing sequences then
  goes on: after the abandoned session for \<open>s\<close> it runs the session for the next sequence
  \<open>s'\<close> on that sequence's own connection, from the unchanged store, hands that session's
  store to the sessions for the remaining sequences, and sends the requests in that order.
\<close>

theorem abandoned_session_leaves_store:
  assumes "\<not> rs_socket_ok conn \<or> \<not> rs_inet_pton_ok conn \<or> \<not> rs_connect_ok conn
           \<or> rs_bytes_sent conn \<noteq> 2
           \<or> (rs_incoming conn = map Data chunks @ t # rest \<and> [] \<notin> set chunks
               \<and> length (concat chunks) < 17 \<and> (t = Data [] \<or> (\<exists>e. t = Errno e)))"
  shows "snd (resend_session conn s m) = Inr m
       \<and> (net s = conn \<longrightarrow> snd (recover net (s # ss) m) = snd (recover net ss m))
       \<and> (net s = conn \<longrightarrow> recover net [s] m = (fst (resend_session conn s m), Inr m))
       \<and> (net s = conn \<longrightarrow>
            recover net (s # s' # ss) m =
              (case resend_session (net s') s' m of
                 (payloads', Inl f) \<Rightarrow> (fst (resend_session conn s m) @ payloads', Inl f)
               | (payloads', Inr m') \<Rightarrow>
                   (fst (resend_session conn s m) @ payloads' @ fst (recover net ss m'),
                    snd (recover net ss m'))))"
proof -
  have 1: "snd (resend_session conn s m) = Inr m"
    using assms by (rule resend_session_abandoned)
  then obtain sent where 2: "resend_session conn s m = (sent, Inr m)"
    by (cases "resend_session conn s m") auto
  from 1 2 show ?thesis
    by (auto split: prod.splits sum.splits)
qed

theorem abandoned_session_leaves_store_witness:
  "rs_incoming (sample_conn 2 [Data ''AAP'', Data ''L'', Errno 11])
      = map Data [''AAP'', ''L''] @ Errno 11 # []
   \<and> [] \<notin> set [''AAP'', ''L'']
   \<and> length (concat [''AAP'', ''L'']) < 17
   \<and> snd (resend_session (sample_conn 2 [Data ''AAP'', Data ''L'', Errno 11]) 2
        [(1, sample_packet ''META'' 1), (4, sample_packet ''MSFT'' 4)])
       = Inr [(1, sample_packet ''META'' 1), (4, sample_packet ''MSFT'' 4)]
   \<and> recover
        (\<lambda>q. if q = 2 then sample_conn 2 [Data ''AAP'', Data ''L'', Errno 11]
             else sample_conn 2 [Data (frame_of ''AAPL'' (CHR 0x00) (CHR 0x00) (CHR 0x00) (CHR 0x03))])
        [2, 3] [(1, sample_packet ''META'' 1), (4, sample_packet ''MSFT'' 4)]
       = ([resend_payload 2, resend_payload 3],
          Inr [(1, sample_packet ''META'' 1), (3, sample_packet ''AAPL'' 3), (4, sample_packet ''MSFT'' 4)])"
proof -
  let ?c2 = "sample_conn 2 [Data ''AAP'', Data ''L'', Errno 11]"
  let ?w = "frame_of ''AAPL'' (CHR 0x00) (CHR 0x00) (CHR 0x00) (CHR 0x03)"
  let ?c3 = "sample_conn 2 [Data ?w]"
  let ?net = "\<lambda>q :: 32 word. if q = 2 then ?c2 else ?c3"
  let ?m = "[(1, sample_packet ''META'' 1), (4, sample_packet ''MSFT'' 4)]"
  have p3: "parse_packet ?w 0 = Inr (sample_packet ''AAPL'' 3)"
    by (simp add: parse_packet_def frame_of_def sample_packet_def shift_combine_def)
  have len: "length ?w = 17" by (simp add: frame_of_def)
  have "\<exists>p. parse_packet (take 17 (concat [?w])) 0 = Inr p
      \<and> resend_session ?c3 3 ?m = ([resend_payload 3], Inr (map_assign (sequence p) p ?m))"
    by (rule resend_session_complete [where rest = "[]"]) (simp_all add: sample_conn_def frame_of_def)
  with p3 len have s3: "resend_session ?c3 3 ?m =
      ([resend_payload 3],
       Inr [(1, sample_packet ''META'' 1), (3, sample_packet ''AAPL'' 3), (4, sample_packet ''MSFT'' 4)])"
    by (simp add: sample_packet_def word_sless_alt)
  have s2: "fst (resend_session ?c2 2 ?m) = [resend_payload 2]"
    by (simp add: resend_session_def sample_conn_def Let_def split: sum.splits prod.splits)
  from abandoned_session_leaves_store
    [of ?c2 "[''AAP'', ''L'']" "Errno 11" "[]" 2 ?m ?net "[]" 3]
  show ?thesis
    using s2 s3 by (simp add: sample_conn_def)
qed

text \<open>
  Claim C9. A completed session changes the store at the decoded sequence only: every
  other key maps to what it did, no key goes away, and the decoded key maps to the
  recovered record whatever it mapped to before, so a record streamed under that key is
  overwritten.
\<close>

theorem complete_session_changes_one_key:
  assumes "rs_socket_ok conn" and "rs_inet_pton_ok conn" and "rs_connect_ok conn"
    and "rs_bytes_sent conn = 2"
    and "rs_incoming conn = map Data chunks @ rest" and "[] \<notin> set chunks"
    and "17 \<le> length (concat chunks)"
  shows "\<exists>p. parse_packet (take 17 (concat chunks)) 0 = Inr p
           \<and> snd (resend_session conn s m) = Inr (map_assign (sequence p) p m)
           \<and> (\<forall>k. k \<noteq> sequence p \<longrightarrow> map_find k (map_assign (sequence p) p m) = map_find k m)
           \<and> map_find (sequence p) (map_assign (sequence p) p m) = Some p
           \<and> set (map fst (map_assign (sequence p) p m)) = insert (sequence p) (set (map fst m))
           \<and> (ordered m \<longrightarrow> ordered (map_assign (sequence p) p m))"
proof -
  obtain p where "parse_packet (take 17 (concat chunks)) 0 = Inr p"
    and "resend_session conn s m = ([resend_payload s], Inr (map_assign (sequence p) p m))"
    using resend_session_complete [OF assms, of s m] by auto
  then show ?thesis
    by (auto simp: map_find_assign ordered_assign keys_assign simp del: set_map)
qed

theorem complete_session_changes_one_key_witness:
  "rs_socket_ok (sample_conn 2 [Data (frame_of ''AAPL'' (CHR 0x00) (CHR 0x00) (CHR 0x00) (CHR 0x04))])
   \<and> rs_bytes_sent (sample_conn 2 [Data (frame_of ''AAPL'' (CHR 0x00) (CHR 0x00) (CHR 0x00) (CHR 0x04))]) = 2
   \<and> 17 \<le> length (concat [frame_of ''AAPL'' (CHR 0x00) (CHR 0x00) (CHR 0x00) (CHR 0x04)])
   \<and> ordered [(1, sample_packet ''META'' 1), (4, sample_packet ''MSFT'' 4)]
   \<and> snd (resend_session
            (sample_conn 2 [Data (frame_of ''AAPL'' (CHR 0x00) (CHR 0x00) (CHR 0x00) (CHR 0x04))])
            3 [(1, sample_packet ''META'' 1), (4, sample_packet ''MSFT'' 4)])
       = Inr [(1, sample_packet ''META'' 1), (4, sample_packet ''AAPL'' 4)]"
  using complete_session_changes_one_key
    [of "sample_conn 2 [Data (frame_of ''AAPL'' (CHR 0x00) (CHR 0x00) (CHR 0x00) (CHR 0x04))]"
        "[frame_of ''AAPL'' (CHR 0x00) (CHR 0x00) (CHR 0x00) (CHR 0x04)]" "[]" 3
        "[(1, sample_packet ''META'' 1), (4, sample_packet ''MSFT'' 4)]"]
  by (simp add: sample_conn_def frame_of_def sample_packet_def parse_packet_def shift_combine_def
      ordered_def word_sless_alt)

section \<open>Last write wins\<close>

text \<open>
  Claim C4. Assignment into the record store is last-write-wins: for every store and two
  records with the same sequence, assigning the first and then the second gives the store
  that assigning the second alone gives; the key then maps to the second record, and an
  ordered store holds exactly one entry for that key; assigning the same record twice is
  assigning it once. Both phases store a record by this assignment: the streaming loop
  that receives the two frames one after the other, and a recovery session that receives
  the second frame after the first record is in the store, end with the second record
  under the key.
\<close>

theorem store_last_write_wins:
  assumes "sequence p1 = sequence p2"
  shows "map_assign (sequence p2) p2 (map_assign (sequence p1) p1 m) = map_assign (sequence p2) p2 m
       \<and> map_find (sequence p2) (map_assign (sequence p2) p2 (map_assign (sequence p1) p1 m)) = Some p2
       \<and> (ordered m \<longrightarrow>
            filter (\<lambda>e. fst e = sequence p2) (map_assign (sequence p2) p2 (map_assign (sequence p1) p1 m))
              = [(sequence p2, p2)])
       \<and> map_assign (sequence p1) p1 (map_assign (sequence p1) p1 m) = map_assign (sequence p1) p1 m
       \<and> (length w1 = 17 \<and> length w2 = 17 \<and> parse_packet w1 0 = Inr p1 \<and> parse_packet w2 0 = Inr p2
            \<longrightarrow> drain m (w1 @ w2) log = Inr (map_assign (sequence p2) p2 m, [], log @ [p1, p2]))
       \<and> (rs_socket_ok conn \<and> rs_inet_pton_ok conn \<and> rs_connect_ok conn \<and> rs_bytes_sent conn = 2
            \<and> rs_incoming conn = Data w2 # rest \<and> length w2 = 17 \<and> parse_packet w2 0 = Inr p2
            \<longrightarrow> snd (resend_session conn s (map_assign (sequence p1) p1 m))
                  = Inr (map_assign (sequence p2) p2 m))"
proof -
  have stream: "drain m (w1 @ w2) log = Inr (map_assign (sequence p2) p2 m, [], log @ [p1, p2])"
    if "length w1 = 17" "length w2 = 17" "parse_packet w1 0 = Inr p1" "parse_packet w2 0 = Inr p2"
  proof -
    have "parse_packet (w1 @ w2) 0 = Inr p1"
      using that by (simp add: parse_packet_prefix)
    then have "drain m (w1 @ w2) log = drain (map_assign (sequence p1) p1 m) w2 (log @ [p1])"
      using that drain_step [of "w1 @ w2" p1 m log] by simp
    also have "\<dots> = Inr (map_assign (sequence p2) p2 (map_assign (sequence p1) p1 m), [], (log @ [p1]) @ [p2])"
      using that by (intro drain_one) simp_all
    finally show ?thesis using assms by (simp add: assign_overwrite)
  qed
  have recovery: "snd (resend_session conn s (map_assign (sequence p1) p1 m)) = Inr (map_assign (sequence p2) p2 m)"
    if "rs_socket_ok conn" "rs_inet_pton_ok conn" "rs_connect_ok conn" "rs_bytes_sent conn = 2"
      "rs_incoming conn = Data w2 # rest" "length w2 = 17" "parse_packet w2 0 = Inr p2"
  proof -
    have "\<exists>p. parse_packet (take 17 (concat [w2])) 0 = Inr p
        \<and> resend_session conn s (map_assign (sequence p1) p1 m)
            = ([resend_payload s], Inr (map_assign (sequence p) p (map_assign (sequence p1) p1 m)))"
      using that by (intro resend_session_complete [where rest = rest]) auto
    with that assms show ?thesis by (auto simp: assign_overwrite)
  qed
  from assms stream recovery show ?thesis
    by (simp add: assign_overwrite map_find_assign assign_entries)
qed

theorem store_last_write_wins_witness:
  "sequence (sample_packet ''AAPL'' 2) = sequence (sample_packet ''MSFT'' 2)
   \<and> ordered [(1, sample_packet ''META'' 1)]
   \<and> parse_packet (frame_of ''AAPL'' (CHR 0x00) (CHR 0x00) (CHR 0x00) (CHR 0x02)) 0 = Inr (sample_packet ''AAPL'' 2)
   \<and> parse_packet (frame_of ''MSFT'' (CHR 0x00) (CHR 0x00) (CHR 0x00) (CHR 0x02)) 0 = Inr (sample_packet ''MSFT'' 2)
   \<and> map_assign 2 (sample_packet ''MSFT'' 2) (map_assign 2 (sample_packet ''AAPL'' 2) [(1, sample_packet ''META'' 1)])
       = [(1, sample_packet ''META'' 1), (2, sample_packet ''MSFT'' 2)]
   \<and> map_find 2 (map_assign 2 (sample_packet ''MSFT'' 2) (map_assign 2 (sample_packet ''AAPL'' 2) [(1, sample_packet ''META'' 1)]))
       = Some (sample_packet ''MSFT'' 2)
   \<and> filter (\<lambda>e. fst e = 2) (map_assign 2 (sample_packet ''MSFT'' 2) (map_assign 2 (sample_packet ''AAPL'' 2) [(1, sample_packet ''META'' 1)]))
       = [(2, sample_packet ''MSFT'' 2)]
   \<and> drain [(1, sample_packet ''META'' 1)]
         (frame_of ''AAPL'' (CHR 0x00) (CHR 0x00) (CHR 0x00) (CHR 0x02)
            @ frame_of ''MSFT'' (CHR 0x00) (CHR 0x00) (CHR 0x00) (CHR 0x02)) []
       = Inr ([(1, sample_packet ''META'' 1), (2, sample_packet ''MSFT'' 2)], [],
              [sample_packet ''AAPL'' 2, sample_packet ''MSFT'' 2])
   \<and> snd (resend_session
            (sample_conn 2 [Data (frame_of ''MSFT'' (CHR 0x00) (CHR 0x00) (CHR 0x00) (CHR 0x02))]) 2
            (map_assign 2 (sample_packet ''AAPL'' 2) [(1, sample_packet ''META'' 1)]))
       = Inr [(1, sample_packet ''META'' 1), (2, sample_packet ''MSFT'' 2)]"
  using store_last_write_wins
    [of "sample_packet ''AAPL'' 2" "sample_packet ''MSFT'' 2" "[(1, sample_packet ''META'' 1)]"
        "frame_of ''AAPL'' (CHR 0x00) (CHR 0x00) (CHR 0x00) (CHR 0x02)"
        "frame_of ''MSFT'' (CHR 0x00) (CHR 0x00) (CHR 0x00) (CHR 0x02)" "[]"
        "sample_conn 2 [Data (frame_of ''MSFT'' (CHR 0x00) (CHR 0x00) (CHR 0x00) (CHR 0x02))]" "[]" 2]
  by (simp add: sample_packet_def sample_conn_def frame_of_def parse_packet_def shift_combine_def
      ordered_def word_sless_alt map_find_def)

section \<open>Properties of the output formatter\<close>

lemma json_objects_append:
  "json_objects (xs @ (k, q) # ys) b =
     json_objects xs b @ (if xs = [] \<and> b then [] else '','' @ nl) @ json_object q @ json_objects ys False"
  by (induction xs arbitrary: b) auto

lemma json_output_entry:
  "json_output (xs @ (k, q) # ys) =
     ''['' @ nl @ json_objects xs True @ (if xs = [] then [] else '','' @ nl) @ json_object q
       @ json_objects ys False @ nl @ '']'' @ nl"
  by (simp add: json_output_def json_objects_append)


lemma c_str_literal: "c_str [CHR '' '', CHR 0x00, CHR 0x00] = '' ''"
  by (simp add: c_str_def)

lemma find_last_not_of_snoc:
  "find_last_not_of (xs @ [x]) chars =
     (if x \<notin> set chars then Some (length xs) else find_last_not_of xs chars)"
proof -
  have "filter (\<lambda>i. (xs @ [x]) ! i \<notin> set chars) (rev [0..<length xs]) =
      filter (\<lambda>i. xs ! i \<notin> set chars) (rev [0..<length xs])"
    by (rule filter_cong) (auto simp: nth_append)
  then show ?thesis by (simp add: find_last_not_of_def)
qed

lemma find_last_not_of_bound: "find_last_not_of xs chars = Some i \<Longrightarrow> i < length xs"
proof -
  assume a: "find_last_not_of xs chars = Some i"
  then obtain js where "filter (\<lambda>i. xs ! i \<notin> set chars) (rev [0..<length xs]) = i # js"
    by (auto simp: find_last_not_of_def split: list.splits)
  then have "i \<in> set (filter (\<lambda>i. xs ! i \<notin> set chars) (rev [0..<length xs]))"
    by (simp only: list.set_intros)
  then show ?thesis by simp
qed

lemma trim_symbol_spaces_only:
  "trim_symbol s = rev (dropWhile (\<lambda>c. c = CHR '' '') (rev s))"
proof (induction s rule: rev_induct)
  case Nil
  show ?case by (simp add: trim_symbol_def find_last_not_of_def)
next
  case (snoc x xs)
  show ?case
  proof (cases "x = CHR '' ''")
    case True
    show ?thesis
    proof (cases "find_last_not_of xs '' ''")
      case None
      with True snoc show ?thesis
        by (simp add: trim_symbol_def c_str_literal find_last_not_of_snoc)
    next
      case (Some i)
      then have "i < length xs" by (rule find_last_not_of_bound)
      with True snoc Some show ?thesis
        by (simp add: trim_symbol_def c_str_literal find_last_not_of_snoc)
    qed
  next
    case False
    then show ?thesis
      by (simp add: trim_symbol_def c_str_literal find_last_not_of_snoc)
  qed
qed

lemma decimal_digit: "n < 10 \<Longrightarrow> decimal n = [''0123456789'' ! n]"
  by (simp add: decimal.simps [of n])

lemma decimal_more: "10 \<le> n \<Longrightarrow> decimal n = decimal (n div 10) @ [''0123456789'' ! (n mod 10)]"
  by (simp add: decimal.simps [of n])

lemma json_object_sequence:
  \<open>\<exists>pre. json_object p =
      pre @ ''        "packetSequence": '' @ to_string (sequence p) @ nl @ ''    }''\<close>
proof -
  let ?pre = \<open>''    {'' @ nl
       @ ''        "symbol": "'' @ trim_symbol (symbol p) @ ''",'' @ nl
       @ ''        "buysell_indicator": "'' @ [buysell_indicator p] @ ''",'' @ nl
       @ ''        "quantity": '' @ to_string (quantity p) @ '','' @ nl
       @ ''        "price": '' @ to_string (price p) @ '','' @ nl\<close>
  have eq: \<open>json_object p =
      ?pre @ ''        "packetSequence": '' @ to_string (sequence p) @ nl @ ''    }''\<close>
    by (simp add: json_object_def)
  show ?thesis by (rule exI [of _ ?pre]) (rule eq)
qed

lemma to_string_nonpositive:
  assumes "v \<le>s 0"
  shows "to_string v = ''0'' \<or> (\<exists>ds. to_string v = CHR ''-'' # ds)"
proof (cases "sint v = 0")
  case True
  then show ?thesis by (simp add: to_string_def decimal_digit)
next
  case False
  with assms have "sint v < 0" by (simp add: word_sle_eq)
  then show ?thesis by (simp add: to_string_def)
qed

text \<open>
  Claim C8. The symbol \<open>AB\<close> followed by two NUL bytes is rendered with its two NUL
  bytes, not as \<open>AB\<close>: \<open>find_last_not_of\<close> receives its literal (a space and a NUL) as a
  C string, which ends at its first NUL, so only spaces are trimmed. Trailing spaces are trimmed, and a symbol of four
  spaces is rendered empty.
\<close>

theorem trim_symbol_keeps_nul:
  \<open>trim_symbol [CHR ''A'', CHR ''B'', CHR 0x00, CHR 0x00] = [CHR ''A'', CHR ''B'', CHR 0x00, CHR 0x00]
   \<and> trim_symbol [CHR ''A'', CHR ''B'', CHR 0x00, CHR 0x00] \<noteq> ''AB''
   \<and> json_object (sample_packet [CHR ''A'', CHR ''B'', CHR 0x00, CHR 0x00] 1) =
       ''    {'' @ nl
       @ ''        "symbol": "'' @ [CHR ''A'', CHR ''B'', CHR 0x00, CHR 0x00] @ ''",'' @ nl
       @ ''        "buysell_indicator": "B",'' @ nl
       @ ''        "quantity": 50,'' @ nl
       @ ''        "price": 256,'' @ nl
       @ ''        "packetSequence": 1'' @ nl
       @ ''    }''
   \<and> trim_symbol ''AB  '' = ''AB''
   \<and> trim_symbol ''    '' = []\<close>
proof -
  have d1: "decimal (Suc 0) = ''1''" by (simp add: decimal_digit)
  have d50: "decimal 50 = ''50''" by (simp add: decimal_more decimal_digit)
  have d256: "decimal 256 = ''256''" by (simp add: decimal_more decimal_digit)
  have t: "trim_symbol [CHR ''A'', CHR ''B'', CHR 0x00, CHR 0x00] = [CHR ''A'', CHR ''B'', CHR 0x00, CHR 0x00]"
    by (simp add: trim_symbol_spaces_only)
  have \<open>json_object (sample_packet [CHR ''A'', CHR ''B'', CHR 0x00, CHR 0x00] 1) =
       ''    {'' @ nl
       @ ''        "symbol": "'' @ [CHR ''A'', CHR ''B'', CHR 0x00, CHR 0x00] @ ''",'' @ nl
       @ ''        "buysell_indicator": "B",'' @ nl
       @ ''        "quantity": 50,'' @ nl
       @ ''        "price": 256,'' @ nl
       @ ''        "packetSequence": 1'' @ nl
       @ ''    }''\<close>
    by (simp add: json_object_def sample_packet_def t to_string_def d1 d50 d256)
  then show ?thesis
    by (simp add: t trim_symbol_spaces_only)
qed

section \<open>Properties of the whole run\<close>

text \<open>
  A resend connection on which chunks arrive and then the peer closes or \<open>recv\<close> fails
  always lets its session return: with the store unchanged, or with the first 17 bytes
  decoded and stored. When this holds of every resend connection, the stream ends by
  close, timeout or error, the greatest key is not \<open>INT32_MAX\<close> and the output file
  opens, the run writes the rendering of the store that recovery leaves.
\<close>

lemma resend_session_settles:
  assumes "rs_incoming conn = map Data chunks @ t # rest" and "[] \<notin> set chunks"
    and "t = Data [] \<or> (\<exists>e. t = Errno e)"
  shows "snd (resend_session conn s m) = Inr m
       \<or> (17 \<le> length (concat chunks)
          \<and> (\<exists>q. parse_packet (take 17 (concat chunks)) 0 = Inr q
                \<and> snd (resend_session conn s m) = Inr (map_assign (sequence q) q m)))"
proof (cases "rs_socket_ok conn \<and> rs_inet_pton_ok conn \<and> rs_connect_ok conn
    \<and> rs_bytes_sent conn = 2 \<and> 17 \<le> length (concat chunks)")
  case True
  then have "\<exists>p. parse_packet (take 17 (concat chunks)) 0 = Inr p
      \<and> resend_session conn s m = ([resend_payload s], Inr (map_assign (sequence p) p m))"
    using assms(1,2) by (intro resend_session_complete [where rest = "t # rest"]) simp_all
  with True show ?thesis by auto
next
  case False
  then have "snd (resend_session conn s m) = Inr m"
    using assms by (intro resend_session_abandoned [where chunks = chunks and t = t and rest = rest]) auto
  then show ?thesis by simp
qed

lemma recover_settles:
  assumes "\<forall>s. rs_incoming (net s) = map Data (cs s) @ ts s # rs s \<and> [] \<notin> set (cs s)
               \<and> (ts s = Data [] \<or> (\<exists>e. ts s = Errno e))"
    and "\<forall>s q. 17 \<le> length (concat (cs s)) \<and> parse_packet (take 17 (concat (cs s))) 0 = Inr q
               \<longrightarrow> sequence q \<noteq> k"
    and "ordered m"
  shows "\<exists>m'. snd (recover net ss m) = Inr m' \<and> map_find k m' = map_find k m \<and> ordered m'"
  using assms(3)
proof (induction ss arbitrary: m)
  case Nil
  then show ?case by simp
next
  case (Cons s ss)
  from assms(1) have shape: "rs_incoming (net s) = map Data (cs s) @ ts s # rs s"
    "[] \<notin> set (cs s)" "ts s = Data [] \<or> (\<exists>e. ts s = Errno e)" by auto
  have "\<exists>m1. snd (resend_session (net s) s m) = Inr m1
      \<and> map_find k m1 = map_find k m \<and> ordered m1"
  proof (cases "snd (resend_session (net s) s m) = Inr m")
    case True
    with Cons.prems show ?thesis by simp
  next
    case False
    with resend_session_settles [OF shape, of s m]
    obtain q where "17 \<le> length (concat (cs s))"
      and "parse_packet (take 17 (concat (cs s))) 0 = Inr q"
      and r: "snd (resend_session (net s) s m) = Inr (map_assign (sequence q) q m)"
      by auto
    with assms(2) have "sequence q \<noteq> k" by blast
    with r Cons.prems show ?thesis by (simp add: map_find_assign ordered_assign)
  qed
  then obtain m1 where m1: "snd (resend_session (net s) s m) = Inr m1"
    and k: "map_find k m1 = map_find k m" and o: "ordered m1"
    by blast
  obtain m' where "snd (recover net ss m1) = Inr m'" "map_find k m' = map_find k m1" "ordered m'"
    using Cons.IH [OF o] by auto
  with m1 k show ?case
    by (cases "resend_session (net s) s m") (auto split: prod.splits)
qed

lemma run_output:
  assumes "init_socket_ok env" and "init_inet_pton_ok env" and "init_connect_ok env"
    and "1 \<le> init_bytes_sent env" and "output_file_opens env"
    and "init_incoming env = map Data chunks @ t # rest" and "[] \<notin> set chunks"
    and "t = Data [] \<or> (\<exists>e. t = Errno e)"
    and "max_sequence_of (insert_all [] (decode_windows (concat chunks))) \<noteq> INT32_MAX"
    and "\<forall>s. rs_incoming (resend_conns env s) = map Data (cs s) @ ts s # rs s \<and> [] \<notin> set (cs s)
               \<and> (ts s = Data [] \<or> (\<exists>e. ts s = Errno e))"
    and "\<forall>s q. 17 \<le> length (concat (cs s)) \<and> parse_packet (take 17 (concat (cs s))) 0 = Inr q
               \<longrightarrow> sequence q \<noteq> k"
  shows "\<exists>m'. snd (recover (resend_conns env)
                  (missing_in_range (insert_all [] (decode_windows (concat chunks)))
                     (max_sequence_of (insert_all [] (decode_windows (concat chunks)))))
                  (insert_all [] (decode_windows (concat chunks)))) = Inr m'
            \<and> client_main env = Inr (0, Some (json_output m'))
            \<and> map_find k m' = map_find k (insert_all [] (decode_windows (concat chunks)))
            \<and> ordered m'"
proof -
  let ?m = "insert_all [] (decode_windows (concat chunks))"
  have stream: "recv_loop (init_incoming env) [] [] [] =
      Inr (?m, fragment (concat chunks), decode_windows (concat chunks))"
    using recv_loop_eq [OF assms(7,8), of "[]" rest "[]" "[]"] assms(6) by simp
  have gap: "find_missing ?m = Inr (missing_in_range ?m (max_sequence_of ?m))"
    using assms(9) by (rule find_missing_eq)
  have "ordered []" by (simp add: ordered_def)
  then have "ordered ?m" by (rule ordered_insert_all)
  then obtain m' where m': "snd (recover (resend_conns env) (missing_in_range ?m (max_sequence_of ?m)) ?m) = Inr m'"
    "map_find k m' = map_find k ?m" "ordered m'"
    using recover_settles [OF assms(10,11)] by blast
  have "client_main env = Inr (0, Some (json_output m'))"
    using assms(1-5) stream gap m'(1) by (simp add: client_main_def)
  with m' show ?thesis by blast
qed

section \<open>Records with a sequence of zero or below\<close>

text \<open>
  Claim C10. A frame whose sequence decodes to zero or a negative number is stored by the
  streaming loop like any other; its entry is rendered between the entries before and
  after it in the store, which is in ascending order of the signed key; no
  missing-sequence list contains its sequence; and for a non-empty store whose keys are
  all negative the missing-sequence list is empty. Its object ends with its sequence
  number in decimal, which is \<open>0\<close> or starts with a minus sign. In the whole run: when the record is
  the one the stream leaves under its sequence and no resend connection delivers a frame
  with that sequence, \<open>main\<close> exits with 0 and what it writes to the output file is the
  rendering of the final store, ordered, with this record's object between those of the
  entries before and after it. (A frame with the same sequence that arrives later, in
  the stream or in a recovery session, replaces the record, as it does for any key.)
\<close>

theorem nonpositive_sequence_kept_not_recovered:
  assumes "length w = 17" and "parse_packet w 0 = Inr p" and "sequence p \<le>s 0"
  shows \<open>drain m w log = Inr (map_assign (sequence p) p m, [], log @ [p])
       \<and> (\<exists>xs ys. map_assign (sequence p) p m = xs @ (sequence p, p) # ys
             \<and> json_output (map_assign (sequence p) p m) =
                 ''['' @ nl @ json_objects xs True @ (if xs = [] then [] else '','' @ nl)
                   @ json_object p @ json_objects ys False @ nl @ '']'' @ nl)
       \<and> (ordered m \<longrightarrow> ordered (map_assign (sequence p) p m))
       \<and> (\<forall>m' missing. find_missing m' = Inr missing \<longrightarrow> sequence p \<notin> set missing)
       \<and> (\<forall>m'. m' \<noteq> [] \<and> (\<forall>e \<in> set m'. fst e <s 0) \<longrightarrow> find_missing m' = Inr [])
       \<and> (\<exists>pre. json_object p =
              pre @ ''        "packetSequence": '' @ to_string (sequence p) @ nl @ ''    }'')
       \<and> (to_string (sequence p) = ''0'' \<or> (\<exists>ds. to_string (sequence p) = CHR ''-'' # ds))
       \<and> (init_socket_ok env \<and> init_inet_pton_ok env \<and> init_connect_ok env
            \<and> 1 \<le> init_bytes_sent env \<and> output_file_opens env
            \<and> init_incoming env = map Data chunks @ t # rest \<and> [] \<notin> set chunks
            \<and> (t = Data [] \<or> (\<exists>e. t = Errno e))
            \<and> map_find (sequence p) (insert_all [] (decode_windows (concat chunks))) = Some p
            \<and> max_sequence_of (insert_all [] (decode_windows (concat chunks))) \<noteq> INT32_MAX
            \<and> (\<forall>s. rs_incoming (resend_conns env s) = map Data (cs s) @ ts s # rs s
                      \<and> [] \<notin> set (cs s) \<and> (ts s = Data [] \<or> (\<exists>e. ts s = Errno e)))
            \<and> (\<forall>s q. 17 \<le> length (concat (cs s))
                      \<and> parse_packet (take 17 (concat (cs s))) 0 = Inr q
                      \<longrightarrow> sequence q \<noteq> sequence p)
            \<longrightarrow> (\<exists>m' xs ys.
                   snd (recover (resend_conns env)
                          (missing_in_range (insert_all [] (decode_windows (concat chunks)))
                             (max_sequence_of (insert_all [] (decode_windows (concat chunks)))))
                          (insert_all [] (decode_windows (concat chunks)))) = Inr m'
                   \<and> client_main env = Inr (0, Some (json_output m'))
                   \<and> ordered m'
                   \<and> m' = xs @ (sequence p, p) # ys
                   \<and> json_output m' =
                       ''['' @ nl @ json_objects xs True @ (if xs = [] then [] else '','' @ nl)
                         @ json_object p @ json_objects ys False @ nl @ '']'' @ nl))\<close>
proof -
  have 1: "drain m w log = Inr (map_assign (sequence p) p m, [], log @ [p])"
    using assms(1,2) by (rule drain_one)
  obtain xs ys where split: "map_assign (sequence p) p m = xs @ (sequence p, p) # ys"
    using mem_assign [of "sequence p" p m] by (auto dest: split_list)
  have 2: "\<exists>xs ys. map_assign (sequence p) p m = xs @ (sequence p, p) # ys
             \<and> json_output (map_assign (sequence p) p m) =
                 ''['' @ nl @ json_objects xs True @ (if xs = [] then [] else '','' @ nl)
                   @ json_object p @ json_objects ys False @ nl @ '']'' @ nl"
    using split json_output_entry [of xs "sequence p" p ys] by auto
  have 3: "ordered m \<longrightarrow> ordered (map_assign (sequence p) p m)"
    by (simp add: ordered_assign)
  have 4: "\<forall>m' missing. find_missing m' = Inr missing \<longrightarrow> sequence p \<notin> set missing"
  proof (intro allI impI notI)
    fix m' missing
    assume "find_missing m' = Inr missing" and "sequence p \<in> set missing"
    then have "0 <s sequence p" by (rule find_missing_positive)
    with assms(3) show False by (simp add: word_sless_alt word_sle_eq)
  qed
  have 5: "\<forall>m'. m' \<noteq> [] \<and> (\<forall>e \<in> set m'. fst e <s 0) \<longrightarrow> find_missing m' = Inr []"
    by (auto intro: find_missing_all_negative)
  have 6: "\<exists>m' xs ys.
        snd (recover (resend_conns env)
               (missing_in_range (insert_all [] (decode_windows (concat chunks)))
                  (max_sequence_of (insert_all [] (decode_windows (concat chunks)))))
               (insert_all [] (decode_windows (concat chunks)))) = Inr m'
        \<and> client_main env = Inr (0, Some (json_output m'))
        \<and> ordered m'
        \<and> m' = xs @ (sequence p, p) # ys
        \<and> json_output m' =
            ''['' @ nl @ json_objects xs True @ (if xs = [] then [] else '','' @ nl)
              @ json_object p @ json_objects ys False @ nl @ '']'' @ nl"
    if run: "init_socket_ok env" "init_inet_pton_ok env" "init_connect_ok env"
      "1 \<le> init_bytes_sent env" "output_file_opens env"
      "init_incoming env = map Data chunks @ t # rest" "[] \<notin> set chunks"
      "t = Data [] \<or> (\<exists>e. t = Errno e)"
      "max_sequence_of (insert_all [] (decode_windows (concat chunks))) \<noteq> INT32_MAX"
      "\<forall>s. rs_incoming (resend_conns env s) = map Data (cs s) @ ts s # rs s
            \<and> [] \<notin> set (cs s) \<and> (ts s = Data [] \<or> (\<exists>e. ts s = Errno e))"
      "\<forall>s q. 17 \<le> length (concat (cs s)) \<and> parse_packet (take 17 (concat (cs s))) 0 = Inr q
            \<longrightarrow> sequence q \<noteq> sequence p"
      and stored: "map_find (sequence p) (insert_all [] (decode_windows (concat chunks))) = Some p"
  proof -
    from run_output [OF run] obtain m' where
      r: "snd (recover (resend_conns env)
               (missing_in_range (insert_all [] (decode_windows (concat chunks)))
                  (max_sequence_of (insert_all [] (decode_windows (concat chunks)))))
               (insert_all [] (decode_windows (concat chunks)))) = Inr m'"
      and c: "client_main env = Inr (0, Some (json_output m'))"
      and k: "map_find (sequence p) m' = map_find (sequence p) (insert_all [] (decode_windows (concat chunks)))"
      and o: "ordered m'"
      by blast
    from k stored have "(sequence p, p) \<in> set m'"
      by (simp add: map_find_def map_of_SomeD)
    then obtain xs ys where s: "m' = xs @ (sequence p, p) # ys"
      by (auto dest: split_list)
    from r c o s json_output_entry [of xs "sequence p" p ys] show ?thesis by blast
  qed
  have 7: \<open>\<exists>pre. json_object p =
      pre @ ''        "packetSequence": '' @ to_string (sequence p) @ nl @ ''    }''\<close>
    by (rule json_object_sequence)
  have 8: "to_string (sequence p) = ''0'' \<or> (\<exists>ds. to_string (sequence p) = CHR ''-'' # ds)"
    using assms(3) by (rule to_string_nonpositive)
  from 1 2 3 4 5 6 7 8 show ?thesis by blast
qed

theorem nonpositive_sequence_kept_not_recovered_witness:
  \<open>length (frame_of ''MSFT'' (CHR 0xFF) (CHR 0xFF) (CHR 0xFF) (CHR 0xFE)) = 17
   \<and> parse_packet (frame_of ''MSFT'' (CHR 0xFF) (CHR 0xFF) (CHR 0xFF) (CHR 0xFE)) 0
       = Inr (sample_packet ''MSFT'' (- 2))
   \<and> sequence (sample_packet ''MSFT'' (- 2)) \<le>s 0
   \<and> drain [(1, sample_packet ''META'' 1)] (frame_of ''MSFT'' (CHR 0xFF) (CHR 0xFF) (CHR 0xFF) (CHR 0xFE)) []
       = Inr ([(- 2, sample_packet ''MSFT'' (- 2)), (1, sample_packet ''META'' 1)], [],
              [sample_packet ''MSFT'' (- 2)])
   \<and> ordered [(- 2, sample_packet ''MSFT'' (- 2)), (1, sample_packet ''META'' 1)]
   \<and> find_missing [(- 2, sample_packet ''MSFT'' (- 2))] = Inr []
   \<and> client_main
        \<lparr> init_socket_ok = True, init_inet_pton_ok = True, init_connect_ok = True,
          init_bytes_sent = 1,
          init_incoming =
            [Data (frame_of ''MSFT'' (CHR 0xFF) (CHR 0xFF) (CHR 0xFF) (CHR 0xFE)
                     @ take 5 (frame_of ''META'' (CHR 0x00) (CHR 0x00) (CHR 0x00) (CHR 0x02))),
             Data (drop 5 (frame_of ''META'' (CHR 0x00) (CHR 0x00) (CHR 0x00) (CHR 0x02))),
             Data []],
          resend_conns =
            (\<lambda>s. sample_conn 2 [Data (frame_of ''AAPL'' (CHR 0x00) (CHR 0x00) (CHR 0x00) (CHR 0x01)), Data []]),
          output_file_opens = True \<rparr>
       = Inr (0, Some (
           ''['' @ nl
           @ ''    {'' @ nl
           @ ''        "symbol": "MSFT",'' @ nl
           @ ''        "buysell_indicator": "B",'' @ nl
           @ ''        "quantity": 50,'' @ nl
           @ ''        "price": 256,'' @ nl
           @ ''        "packetSequence": -2'' @ nl
           @ ''    },'' @ nl
           @ ''    {'' @ nl
           @ ''        "symbol": "AAPL",'' @ nl
           @ ''        "buysell_indicator": "B",'' @ nl
           @ ''        "quantity": 50,'' @ nl
           @ ''        "price": 256,'' @ nl
           @ ''        "packetSequence": 1'' @ nl
           @ ''    },'' @ nl
           @ ''    {'' @ nl
           @ ''        "symbol": "META",'' @ nl
           @ ''        "buysell_indicator": "B",'' @ nl
           @ ''        "quantity": 50,'' @ nl
           @ ''        "price": 256,'' @ nl
           @ ''        "packetSequence": 2'' @ nl
           @ ''    }'' @ nl
           @ '']'' @ nl))\<close>
proof -
  let ?w = "frame_of ''MSFT'' (CHR 0xFF) (CHR 0xFF) (CHR 0xFF) (CHR 0xFE)"
  let ?f2 = "frame_of ''META'' (CHR 0x00) (CHR 0x00) (CHR 0x00) (CHR 0x02)"
  let ?f1 = "frame_of ''AAPL'' (CHR 0x00) (CHR 0x00) (CHR 0x00) (CHR 0x01)"
  let ?p = "sample_packet ''MSFT'' (- 2)"
  let ?p1 = "sample_packet ''AAPL'' 1"
  let ?p2 = "sample_packet ''META'' 2"
  let ?chunks = "[?w @ take 5 ?f2, drop 5 ?f2]"
  let ?conn = "sample_conn 2 [Data ?f1, Data []]"
  let ?env = "\<lparr> init_socket_ok = True, init_inet_pton_ok = True, init_connect_ok = True,
          init_bytes_sent = 1,
          init_incoming = [Data (?w @ take 5 ?f2), Data (drop 5 ?f2), Data []],
          resend_conns = (\<lambda>s :: 32 word. ?conn),
          output_file_opens = True \<rparr>"
  let ?m = "[(- 2, ?p), (2, ?p2)]"
  let ?m' = "[(- 2, ?p), (1, ?p1), (2, ?p2)]"
  have lw: "length ?w = 17" and l2: "length ?f2 = 17" and l1: "length ?f1 = 17"
    by (simp_all add: frame_of_def)
  have pw: "parse_packet ?w 0 = Inr ?p"
    by (simp add: parse_packet_def frame_of_def sample_packet_def shift_combine_def)
  have pw2: "parse_packet (?w @ ?f2) 0 = Inr ?p"
    using lw pw by (simp add: parse_packet_prefix)
  have p2: "parse_packet ?f2 0 = Inr ?p2"
    by (simp add: parse_packet_def frame_of_def sample_packet_def shift_combine_def)
  have p1: "parse_packet ?f1 0 = Inr ?p1"
    by (simp add: parse_packet_def frame_of_def sample_packet_def shift_combine_def)
  have neg: "sequence ?p \<le>s 0"
    by (simp add: sample_packet_def word_sle_eq)
  have c: "concat ?chunks = ?w @ ?f2" by simp
  have dw: "decode_windows (?w @ ?f2) = [?p, ?p2]"
    using pw2 p2 lw l2
    by (simp add: decode_windows_rec [of "?w @ ?f2"] decode_windows_rec [of ?f2] decode_windows_short)
  have m: "insert_all [] [?p, ?p2] = ?m"
    by (simp add: insert_all_def sample_packet_def word_sless_alt)
  have mx: "max_sequence_of ?m = 2" by (simp add: max_sequence_of_def)
  have up: "[1..2::int] = [1, 2]" by (simp add: upto.simps)
  have miss: "missing_in_range ?m 2 = [1]"
    by (simp add: missing_in_range_def up map_find_def)
  have "\<exists>q. parse_packet (take 17 (concat [?f1])) 0 = Inr q
      \<and> resend_session ?conn 1 ?m = ([resend_payload 1], Inr (map_assign (sequence q) q ?m))"
    by (rule resend_session_complete [where rest = "[Data []]"]) (simp_all add: sample_conn_def frame_of_def)
  with p1 l1 have "resend_session ?conn 1 ?m = ([resend_payload 1], Inr ?m')"
    by (simp add: sample_packet_def word_sless_alt)
  then have rec: "snd (recover (\<lambda>s. ?conn) [1] ?m) = Inr ?m'" by simp
  have d1: "decimal (Suc 0) = ''1''" by (simp add: decimal_digit)
  have d2: "decimal 2 = ''2''" by (simp add: decimal_digit)
  have d50: "decimal 50 = ''50''" by (simp add: decimal_more decimal_digit)
  have d256: "decimal 256 = ''256''" by (simp add: decimal_more decimal_digit)
  have rendered: \<open>json_output ?m' =
           ''['' @ nl
           @ ''    {'' @ nl
           @ ''        "symbol": "MSFT",'' @ nl
           @ ''        "buysell_indicator": "B",'' @ nl
           @ ''        "quantity": 50,'' @ nl
           @ ''        "price": 256,'' @ nl
           @ ''        "packetSequence": -2'' @ nl
           @ ''    },'' @ nl
           @ ''    {'' @ nl
           @ ''        "symbol": "AAPL",'' @ nl
           @ ''        "buysell_indicator": "B",'' @ nl
           @ ''        "quantity": 50,'' @ nl
           @ ''        "price": 256,'' @ nl
           @ ''        "packetSequence": 1'' @ nl
           @ ''    },'' @ nl
           @ ''    {'' @ nl
           @ ''        "symbol": "META",'' @ nl
           @ ''        "buysell_indicator": "B",'' @ nl
           @ ''        "quantity": 50,'' @ nl
           @ ''        "price": 256,'' @ nl
           @ ''        "packetSequence": 2'' @ nl
           @ ''    }'' @ nl
           @ '']'' @ nl\<close>
    by (simp add: json_output_def json_object_def sample_packet_def trim_symbol_spaces_only
        to_string_def d1 d2 d50 d256)
  have stored: "map_find (sequence ?p) (insert_all [] (decode_windows (concat ?chunks))) = Some ?p"
    by (simp only: c dw m) (simp add: map_find_def sample_packet_def)
  have notmax: "max_sequence_of (insert_all [] (decode_windows (concat ?chunks))) \<noteq> INT32_MAX"
    by (simp only: c dw m mx) (simp add: INT32_MAX_def)
  have shape: "\<forall>s. rs_incoming (resend_conns ?env s) = map Data [?f1] @ Data [] # []
      \<and> [] \<notin> set [?f1] \<and> (Data [] = Data [] \<or> (\<exists>e. Data [] = Errno e))"
    by (simp add: sample_conn_def frame_of_def)
  have other: "\<forall>s q. 17 \<le> length (concat [?f1]) \<and> parse_packet (take 17 (concat [?f1])) 0 = Inr q
      \<longrightarrow> sequence q \<noteq> sequence ?p"
    using p1 l1 by (auto simp: sample_packet_def)
  note T = nonpositive_sequence_kept_not_recovered
      [OF lw pw neg, of "[(1, sample_packet ''META'' 1)]" "[]" ?env ?chunks "Data []" "[]"
         "\<lambda>s. [?f1]" "\<lambda>s. Data []" "\<lambda>s. []"]
  have i1: "init_socket_ok ?env" and i2: "init_inet_pton_ok ?env" and i3: "init_connect_ok ?env"
    and i4: "1 \<le> init_bytes_sent ?env" and i5: "output_file_opens ?env"
    and inc: "init_incoming ?env = map Data ?chunks @ Data [] # []"
    by simp_all
  have ne: "[] \<notin> set ?chunks" by (simp add: frame_of_def)
  have tm: "Data [] = Data [] \<or> (\<exists>e. Data [] = Errno e)" by simp
  have run: "\<exists>m' xs ys.
        snd (recover (resend_conns ?env)
               (missing_in_range (insert_all [] (decode_windows (concat ?chunks)))
                  (max_sequence_of (insert_all [] (decode_windows (concat ?chunks)))))
               (insert_all [] (decode_windows (concat ?chunks)))) = Inr m'
        \<and> client_main ?env = Inr (0, Some (json_output m'))
        \<and> ordered m'
        \<and> m' = xs @ (sequence ?p, ?p) # ys
        \<and> json_output m' =
            ''['' @ nl @ json_objects xs True @ (if xs = [] then [] else '','' @ nl)
              @ json_object ?p @ json_objects ys False @ nl @ '']'' @ nl"
    by (rule T [THEN conjunct2, THEN conjunct2, THEN conjunct2, THEN conjunct2, THEN conjunct2,
                THEN conjunct2, THEN conjunct2, THEN mp])
       (intro conjI i1 i2 i3 i4 i5 inc ne tm stored notmax shape other)
  then obtain m' where "snd (recover (resend_conns ?env)
               (missing_in_range (insert_all [] (decode_windows (concat ?chunks)))
                  (max_sequence_of (insert_all [] (decode_windows (concat ?chunks)))))
               (insert_all [] (decode_windows (concat ?chunks)))) = Inr m'"
      and cm: "client_main ?env = Inr (0, Some (json_output m'))"
    by blast
  then have "snd (recover (\<lambda>s. ?conn) [1] ?m) = Inr m'"
    by (simp only: c dw m mx miss) simp
  with rec have "m' = ?m'" by simp
  with cm rendered have out: "client_main ?env = Inr (0, Some (json_output ?m'))" by simp
  have old1: "drain [(1, sample_packet ''META'' 1)] ?w []
       = Inr ([(- 2, ?p), (1, sample_packet ''META'' 1)], [], [?p])"
    using T [THEN conjunct1] by (simp add: sample_packet_def word_sless_alt)
  have old3: "ordered [(- 2, ?p), (1, sample_packet ''META'' 1)]"
    using T [THEN conjunct2, THEN conjunct2, THEN conjunct1]
    by (simp add: sample_packet_def ordered_def word_sless_alt)
  have old5: "find_missing [(- 2, ?p)] = Inr []"
    using T [THEN conjunct2, THEN conjunct2, THEN conjunct2, THEN conjunct2, THEN conjunct1,
             THEN spec, of "[(- 2, ?p)]"]
    by (simp add: word_sless_alt)
  from lw pw neg old1 old3 old5 out rendered show ?thesis by (simp only:)
qed

end
